theory Spec2Isabelle
  imports Main "HOL-Library.Word"
begin

section \<open>The C ABI shim of GameTracer\<close>

text \<open>
  This theory embeds the shim of \<^verbatim>\<open>c_api/gametracer_c_api.cpp\<close>: the size validator
  \<^verbatim>\<open>compute_sizes\<close>, the helper \<^verbatim>\<open>cleanup_eq\<close> and the three exported functions
  \<^verbatim>\<open>gametracer_free\<close>, \<^verbatim>\<open>ipa\<close> and \<^verbatim>\<open>gnm\<close>.

  Conventions of the embedding:
  \<^item> \<^verbatim>\<open>int\<close> is a 32-bit word read with \<open>sint\<close>; \<^verbatim>\<open>size_t\<close> is a 64-bit word read with
    \<open>unat\<close> (an LP64 or LLP64 target). Conversions are the casts of the source:
    \<open>scast\<close> for \<^verbatim>\<open>static_cast<size_t>(int)\<close>, \<open>ucast\<close> for \<^verbatim>\<open>static_cast<int>(size_t)\<close>.
  \<^item> \<^verbatim>\<open>double\<close> is the type variable \<open>'d\<close>: the shim only copies such values.
  \<^item> A C++ exception is the outcome \<open>Throw\<close>; an access outside an object, or the release
    of something that is not a live block of the right kind, is the outcome \<open>Fault\<close>
    (undefined behaviour in C++).
\<close>

subsection \<open>Machine integers and outcomes\<close>

type_synonym c_int = "32 word"
type_synonym size_t = "64 word"

datatype exn = bad_alloc | other_exception

datatype 'a result = Ok 'a | Throw exn | Fault

subsection \<open>The size validator\<close>

text \<open>
  The loop of \<^verbatim>\<open>compute_sizes\<close>. \<open>actions\<close> is the array behind the pointer, \<open>n\<close> the
  (positive) number of players, \<open>p\<close> the loop counter, \<open>M\<close> and \<open>P\<close> the two
  \<^verbatim>\<open>size_t\<close> accumulators. \<open>Ok None\<close> is \<^verbatim>\<open>return false\<close>; reading \<^verbatim>\<open>actions[p]\<close> past the
  end of the array is \<open>Fault\<close>. The source adds to \<open>M\<close> before it tests \<open>P\<close>; the value
  of \<open>M\<close> is dropped when the test fails, so the order is immaterial here.
\<close>

function sizes_loop ::
  "c_int list \<Rightarrow> nat \<Rightarrow> nat \<Rightarrow> size_t \<Rightarrow> size_t \<Rightarrow> (size_t \<times> size_t) option result" where
  "sizes_loop actions n p M P =
     (if p < n then
        (if p < length actions then
           (let ap = actions ! p in
            if sint ap \<le> 0 then Ok None
            else if (- 1) div scast ap < P then Ok None
            else sizes_loop actions n (p + 1) (M + scast ap) (P * scast ap))
         else Fault)
      else Ok (Some (M, P)))"
  by pat_completeness auto
termination
  by (relation "measure (\<lambda>(actions, n, p, M, P). n - p)") auto

declare sizes_loop.simps [simp del]

text \<open>
  \<^verbatim>\<open>struct GameSizes\<close>. The fields carry the prefix \<open>sz_\<close> because the one-letter names
  \<open>N\<close>, \<open>M\<close> and \<open>P\<close> would capture these letters everywhere below.
\<close>

record GameSizes =
  sz_N :: c_int
  sz_M :: c_int
  sz_P :: c_int
  sz_payoff_len :: c_int

definition INT_MAX :: int where
  "INT_MAX = 2147483647"

text \<open>
  \<^verbatim>\<open>compute_sizes(num_players, actions, out)\<close>: \<open>None\<close> as the second argument is the null
  pointer; \<open>Ok None\<close> is \<^verbatim>\<open>return false\<close>, \<open>Ok (Some sz)\<close> is \<^verbatim>\<open>return true\<close> with
  \<^verbatim>\<open>out = sz\<close>.
\<close>

definition compute_sizes :: "c_int \<Rightarrow> c_int list option \<Rightarrow> GameSizes option result" where
  "compute_sizes num_players actions =
     (if sint num_players \<le> 0 \<or> actions = None then Ok None
      else (case sizes_loop (the actions) (nat (sint num_players)) 0 0 1 of
              Fault \<Rightarrow> Fault
            | Throw e \<Rightarrow> Throw e
            | Ok None \<Rightarrow> Ok None
            | Ok (Some (M, P)) \<Rightarrow>
                if word_of_int INT_MAX < M then Ok None
                else if word_of_int INT_MAX < P then Ok None
                else (let payoff_len = scast num_players * P in
                      if word_of_int INT_MAX < payoff_len then Ok None
                      else Ok (Some \<lparr>sz_N = num_players, sz_M = ucast M, sz_P = ucast P,
                                     sz_payoff_len = ucast payoff_len\<rparr>))))"

text \<open>
  The sizes as the layout contract of the header states them, over the integers:
  \<^verbatim>\<open>M = sum_p a_p\<close> and \<^verbatim>\<open>P = prod_p a_p\<close>; \<open>sizes_fit\<close> says that the game description is
  well-formed and that \<open>M\<close>, \<open>P\<close> and \<open>N * P\<close> fit in an \<^verbatim>\<open>int\<close>.
\<close>

definition total_actions :: "c_int list \<Rightarrow> int" where
  "total_actions acts = sum_list (map sint acts)"

definition profile_count :: "c_int list \<Rightarrow> int" where
  "profile_count acts = prod_list (map sint acts)"

definition sizes_fit :: "c_int \<Rightarrow> c_int list \<Rightarrow> bool" where
  "sizes_fit num_players acts \<longleftrightarrow>
     0 < sint num_players \<and> (\<forall>a \<in> set acts. 0 < sint a) \<and>
     total_actions acts \<le> INT_MAX \<and> profile_count acts \<le> INT_MAX \<and>
     sint num_players * profile_count acts \<le> INT_MAX"

subsection \<open>Memory\<close>

text \<open>
  Memory is an explicit store of blocks. A block has one address; a pointer is an
  \<open>addr option\<close>, with \<open>None\<close> for \<^verbatim>\<open>nullptr\<close>. Every block records how it was obtained,
  because \<^verbatim>\<open>std::free\<close> may only release what \<^verbatim>\<open>std::malloc\<close> returned and \<^verbatim>\<open>delete\<close> (or
  the end of a scope) only what a constructor built. A \<^verbatim>\<open>std::vector<int>\<close>, a \<^verbatim>\<open>cvector\<close>
  and an \<^verbatim>\<open>nfgame\<close> are one block each, holding their contents.

  \<open>brk\<close> is the next unused address: blocks are allocated at increasing addresses and
  an address is never handed out twice. \<open>allocs\<close> counts the allocation requests of the
  shim (constructors and \<^verbatim>\<open>std::malloc\<close>, failed ones included) and \<open>solver_calls\<close> the
  calls of \<^verbatim>\<open>IPA\<close> and \<^verbatim>\<open>GNM\<close>; both are observations added to the model.
\<close>

type_synonym addr = nat

datatype origin = by_malloc | by_new | by_caller

datatype 'd block =
    IntArr "c_int list"
  | DblArr "'d list"
  | PtrArr "addr list"
  | PtrCell "addr option"
  | GameObj c_int "c_int list" "'d list"

record 'd store =
  mem :: "addr \<Rightarrow> (origin \<times> 'd block) option"
  brk :: addr
  allocs :: nat
  solver_calls :: nat

text \<open>
  The variables that \<^verbatim>\<open>gnm\<close> declares before its \<^verbatim>\<open>try\<close> block, so that the handlers
  can see them: the store extended by the activation frame of \<^verbatim>\<open>gnm\<close>.
\<close>

record 'd gnm_frame = "'d store" +
  Eq :: "addr option"
  found :: c_int
  buf :: "addr option"

definition enter_gnm :: "'d store \<Rightarrow> 'd gnm_frame" where
  "enter_gnm st =
     \<lparr>mem = mem st, brk = brk st, allocs = allocs st, solver_calls = solver_calls st,
      Eq = None, found = 0, buf = None\<rparr>"

definition leave_gnm :: "'d gnm_frame \<Rightarrow> 'd store" where
  "leave_gnm fr =
     \<lparr>mem = mem fr, brk = brk fr, allocs = allocs fr, solver_calls = solver_calls fr\<rparr>"

definition ints_of :: "('d, 'x) store_scheme \<Rightarrow> addr \<Rightarrow> c_int list option" where
  "ints_of st a = (case mem st a of Some (og, IntArr xs) \<Rightarrow> Some xs | _ \<Rightarrow> None)"

definition dbls_of :: "('d, 'x) store_scheme \<Rightarrow> addr \<Rightarrow> 'd list option" where
  "dbls_of st a = (case mem st a of Some (og, DblArr xs) \<Rightarrow> Some xs | _ \<Rightarrow> None)"

definition ptrs_of :: "('d, 'x) store_scheme \<Rightarrow> addr \<Rightarrow> addr list option" where
  "ptrs_of st a = (case mem st a of Some (og, PtrArr xs) \<Rightarrow> Some xs | _ \<Rightarrow> None)"

definition cell_of :: "('d, 'x) store_scheme \<Rightarrow> addr \<Rightarrow> addr option option" where
  "cell_of st a = (case mem st a of Some (og, PtrCell p) \<Rightarrow> Some p | _ \<Rightarrow> None)"

definition game_of :: "('d, 'x) store_scheme \<Rightarrow> addr \<Rightarrow> (c_int \<times> c_int list \<times> 'd list) option" where
  "game_of st a = (case mem st a of Some (og, GameObj n acts pay) \<Rightarrow> Some (n, acts, pay) | _ \<Rightarrow> None)"

definition origin_of :: "('d, 'x) store_scheme \<Rightarrow> addr \<Rightarrow> origin option" where
  "origin_of st a = map_option fst (mem st a)"

text \<open>Overwriting the contents of a live block; its origin stays.\<close>

definition poke :: "addr \<Rightarrow> 'd block \<Rightarrow> ('d, 'x) store_scheme \<Rightarrow> ('d, 'x) store_scheme" where
  "poke a b st = st\<lparr>mem := (mem st)(a := map_option (\<lambda>(og, old). (og, b)) (mem st a))\<rparr>"

text \<open>
  The array that an \<^verbatim>\<open>int\<close> pointer designates: a pointer to anything but an \<^verbatim>\<open>int\<close>
  array designates no element at all, so that every read through it is out of bounds.
\<close>

definition ints_at :: "('d, 'x) store_scheme \<Rightarrow> addr option \<Rightarrow> c_int list option" where
  "ints_at st p =
     (case p of None \<Rightarrow> None
      | Some a \<Rightarrow> (case ints_of st a of None \<Rightarrow> Some [] | Some xs \<Rightarrow> Some xs))"

definition blk_alloc ::
  "origin \<Rightarrow> 'd block \<Rightarrow> ('d, 'x) store_scheme \<Rightarrow> addr \<times> ('d, 'x) store_scheme" where
  "blk_alloc og b st = (brk st, st\<lparr>mem := (mem st)(brk st \<mapsto> (og, b)), brk := Suc (brk st)\<rparr>)"

definition release ::
  "origin \<Rightarrow> addr \<Rightarrow> ('d, 'x) store_scheme \<Rightarrow> unit result \<times> ('d, 'x) store_scheme" where
  "release og a st =
     (if origin_of st a = Some og then (Ok (), st\<lparr>mem := (mem st)(a := None)\<rparr>)
      else (Fault, st))"

text \<open>\<^verbatim>\<open>std::free\<close>: a no-op on the null pointer.\<close>

definition std_free ::
  "addr option \<Rightarrow> ('d, 'x) store_scheme \<Rightarrow> unit result \<times> ('d, 'x) store_scheme" where
  "std_free p st = (case p of None \<Rightarrow> (Ok (), st) | Some a \<Rightarrow> release by_malloc a st)"

text \<open>
  \<^verbatim>\<open>static_cast<size_t>(x)\<close> for an \<^verbatim>\<open>int\<close> \<open>x\<close>, as a number of array elements. Sizes are
  counted in elements: the scaling by \<^verbatim>\<open>sizeof(double)\<close> belongs to the byte layout, which
  the store does not have.
\<close>

definition elems :: "c_int \<Rightarrow> nat" where
  "elems x = unat (scast x :: size_t)"

text \<open>
  \<^verbatim>\<open>std::memcpy(dst + off, src, n * sizeof(double))\<close> between two arrays of doubles. Reading
  or writing past the end of a block, and copying a block onto itself, are faults.
\<close>

definition memcpy ::
  "addr \<Rightarrow> nat \<Rightarrow> addr \<Rightarrow> nat \<Rightarrow> ('d, 'x) store_scheme \<Rightarrow> unit result \<times> ('d, 'x) store_scheme" where
  "memcpy dst off src n st =
     (case (dbls_of st dst, dbls_of st src) of
        (Some old, Some xs) \<Rightarrow>
          if dst \<noteq> src \<and> n \<le> length xs \<and> off + n \<le> length old
          then (Ok (), poke dst (DblArr (take off old @ take n xs @ drop (off + n) old)) st)
          else (Fault, st)
      | _ \<Rightarrow> (Fault, st))"

text \<open>\<^verbatim>\<open>*p = v\<close> for a pointer \<open>p\<close> to a \<^verbatim>\<open>double*\<close> variable.\<close>

definition write_ptr ::
  "addr \<Rightarrow> addr option \<Rightarrow> ('d, 'x) store_scheme \<Rightarrow> unit result \<times> ('d, 'x) store_scheme" where
  "write_ptr a v st =
     (case cell_of st a of Some old \<Rightarrow> (Ok (), poke a (PtrCell v) st) | None \<Rightarrow> (Fault, st))"

subsection \<open>Sequencing, scopes and exceptions\<close>

text \<open>
  \<open>andthen m f\<close> runs \<open>m\<close> and, when it completes normally, \<open>f\<close> on its value; a thrown
  exception or a fault ends the sequence. \<open>scoped ctor body\<close> is a C++ object with
  automatic storage duration: the constructor runs, then the rest of the block, and the
  destructor runs when control leaves the block, by a \<^verbatim>\<open>return\<close> or by an exception
  (\<open>leave_scope\<close>).
\<close>

definition yield :: "'a \<Rightarrow> 's \<Rightarrow> 'a result \<times> 's" where
  "yield x st = (Ok x, st)"

definition andthen ::
  "('s \<Rightarrow> 'a result \<times> 's) \<Rightarrow> ('a \<Rightarrow> 's \<Rightarrow> 'b result \<times> 's) \<Rightarrow> 's \<Rightarrow> 'b result \<times> 's" where
  "andthen m f st =
     (case m st of
        (Ok x, st1) \<Rightarrow> f x st1
      | (Throw e, st1) \<Rightarrow> (Throw e, st1)
      | (Fault, st1) \<Rightarrow> (Fault, st1))"

definition leave_scope ::
  "addr \<Rightarrow> 'a result \<times> ('d, 'x) store_scheme \<Rightarrow> 'a result \<times> ('d, 'x) store_scheme" where
  "leave_scope a rs =
     (case rs of
        (Fault, st2) \<Rightarrow> (Fault, st2)
      | (r, st2) \<Rightarrow>
          (case release by_new a st2 of
             (Ok u, st3) \<Rightarrow> (r, st3)
           | (Throw e, st3) \<Rightarrow> (Fault, st3)
           | (Fault, st3) \<Rightarrow> (Fault, st3)))"

definition scoped ::
  "(('d, 'x) store_scheme \<Rightarrow> addr result \<times> ('d, 'x) store_scheme) \<Rightarrow>
   (addr \<Rightarrow> ('d, 'x) store_scheme \<Rightarrow> 'a result \<times> ('d, 'x) store_scheme) \<Rightarrow>
   ('d, 'x) store_scheme \<Rightarrow> 'a result \<times> ('d, 'x) store_scheme" where
  "scoped ctor body st =
     (case ctor st of
        (Ok a, st1) \<Rightarrow> leave_scope a (body a st1)
      | (Throw e, st1) \<Rightarrow> (Throw e, st1)
      | (Fault, st1) \<Rightarrow> (Fault, st1))"

subsection \<open>The collaborators\<close>

text \<open>
  The allocator, the classes \<^verbatim>\<open>cvector\<close> and \<^verbatim>\<open>nfgame\<close> and the solvers \<^verbatim>\<open>IPA\<close> and \<^verbatim>\<open>GNM\<close>
  are declared in headers outside the shim. What they do is a parameter \<open>W\<close> of every
  function below, and the theorems hold for all of them:
  \<^item> \<open>ctor_throws s\<close>: the exception, if any, that the constructor at site \<open>s\<close> throws;
  \<^item> \<open>malloc_fails\<close>: whether \<^verbatim>\<open>std::malloc\<close> returns the null pointer;
  \<^item> \<open>uninit a i\<close>: the indeterminate value of element \<open>i\<close> of the fresh block \<open>a\<close>;
  \<^item> \<open>IPA\<close>, \<open>GNM\<close>: the solvers, as functions of the contents of the objects they are
    passed by reference, returning the new contents of the ones they may mutate.
\<close>

datatype site = Acts | Payvec | Nfgame | Gvec | Zhvec | Ansvec

text \<open>
  \<^verbatim>\<open>IPA(A, g, zh, alpha, fuzz, ans)\<close> throws, or returns an \<^verbatim>\<open>int\<close> and leaves new contents
  in \<open>g\<close>, \<open>zh\<close> and \<open>ans\<close>.
\<close>

datatype 'd ipa_outcome =
    IPA_throws exn
  | IPA_returns c_int "'d list" "'d list" "'d list"

text \<open>
  Modelled from the spec: the result convention of \<^verbatim>\<open>GNM(A, g, Eq, ...)\<close>, whose source is
  not part of the shim. \<open>Eq\<close> is passed by reference: the solver leaves it null (\<open>None\<close>) or
  sets it to an array obtained from \<^verbatim>\<open>std::malloc\<close> whose entries are handles, each a
  \<^verbatim>\<open>cvector\<close> built with \<^verbatim>\<open>new\<close> (\<open>Some rows\<close>, the contents of the live handles). When it
  returns, it returns a count and leaves new contents in \<open>g\<close>. When it throws, \<open>Eq\<close> is as
  the solver left it at that moment, null or an array with the handles created so far,
  and no count reaches the shim.
\<close>

datatype 'd gnm_outcome =
    GNM_throws exn "'d list list option"
  | GNM_returns c_int "'d list" "'d list list option"

type_synonym 'd game = "c_int \<times> c_int list \<times> 'd list"

record 'd world =
  ctor_throws :: "site \<Rightarrow> exn option"
  malloc_fails :: bool
  uninit :: "addr \<Rightarrow> nat \<Rightarrow> 'd"
  IPA :: "'d game \<Rightarrow> 'd list \<Rightarrow> 'd list \<Rightarrow> 'd \<Rightarrow> 'd \<Rightarrow> 'd list \<Rightarrow> 'd ipa_outcome"
  GNM :: "'d game \<Rightarrow> 'd list \<Rightarrow> c_int \<Rightarrow> 'd \<Rightarrow> c_int \<Rightarrow> c_int \<Rightarrow> 'd \<Rightarrow> c_int \<Rightarrow> 'd \<Rightarrow>
          'd gnm_outcome"

text \<open>A constructor: it throws, leaving nothing behind, or builds its block.\<close>

definition construct ::
  "'d world \<Rightarrow> site \<Rightarrow> 'd block \<Rightarrow> ('d, 'x) store_scheme \<Rightarrow> addr result \<times> ('d, 'x) store_scheme" where
  "construct W s b st =
     (let st1 = st\<lparr>allocs := Suc (allocs st)\<rparr> in
      case ctor_throws W s of
        Some e \<Rightarrow> (Throw e, st1)
      | None \<Rightarrow> (case blk_alloc by_new b st1 of (a, st2) \<Rightarrow> (Ok a, st2)))"

text \<open>\<^verbatim>\<open>std::vector<int> acts(n)\<close>: \<open>n\<close> zeros.\<close>

definition new_vector ::
  "'d world \<Rightarrow> site \<Rightarrow> nat \<Rightarrow> ('d, 'x) store_scheme \<Rightarrow> addr result \<times> ('d, 'x) store_scheme" where
  "new_vector W s n = construct W s (IntArr (replicate n 0))"

text \<open>\<^verbatim>\<open>cvector v(m)\<close>: \<open>m\<close> doubles with indeterminate values.\<close>

definition new_cvector ::
  "'d world \<Rightarrow> site \<Rightarrow> c_int \<Rightarrow> ('d, 'x) store_scheme \<Rightarrow> addr result \<times> ('d, 'x) store_scheme" where
  "new_cvector W s m st =
     construct W s (DblArr (map (uninit W (brk st)) [0..<nat (sint m)])) st"

text \<open>\<^verbatim>\<open>nfgame A(n, acts.data(), payvec)\<close>: the game object holds a copy of both arrays.\<close>

definition new_nfgame ::
  "'d world \<Rightarrow> c_int \<Rightarrow> addr \<Rightarrow> addr \<Rightarrow> ('d, 'x) store_scheme \<Rightarrow>
   addr result \<times> ('d, 'x) store_scheme" where
  "new_nfgame W n acts payvec st =
     (case (ints_of st acts, dbls_of st payvec) of
        (Some a, Some p) \<Rightarrow> construct W Nfgame (GameObj n a p) st
      | _ \<Rightarrow> (Fault, st))"

text \<open>\<^verbatim>\<open>std::malloc\<close> for \<open>n\<close> doubles: the null pointer, or a fresh block.\<close>

definition malloc ::
  "'d world \<Rightarrow> nat \<Rightarrow> ('d, 'x) store_scheme \<Rightarrow> addr option \<times> ('d, 'x) store_scheme" where
  "malloc W n st =
     (let st1 = st\<lparr>allocs := Suc (allocs st)\<rparr> in
      if malloc_fails W then (None, st1)
      else (case blk_alloc by_malloc (DblArr (map (uninit W (brk st)) [0..<n])) st1 of
              (a, st2) \<Rightarrow> (Some a, st2)))"

text \<open>
  The call \<^verbatim>\<open>IPA(A, gvec, zhvec, alpha, fuzz, ansvec)\<close>: the solver sees the contents of the
  four objects and its mutations land in the three vectors it was passed.
\<close>

definition call_IPA ::
  "'d world \<Rightarrow> addr \<Rightarrow> addr \<Rightarrow> addr \<Rightarrow> 'd \<Rightarrow> 'd \<Rightarrow> addr \<Rightarrow> ('d, 'x) store_scheme \<Rightarrow>
   c_int result \<times> ('d, 'x) store_scheme" where
  "call_IPA W A gvec zhvec alpha fuzz ansvec st =
     (case (game_of st A, dbls_of st gvec, dbls_of st zhvec, dbls_of st ansvec) of
        (Some gm, Some gv, Some zv, Some av) \<Rightarrow>
          (let st1 = st\<lparr>solver_calls := Suc (solver_calls st)\<rparr> in
           case IPA W gm gv zv alpha fuzz av of
             IPA_throws e \<Rightarrow> (Throw e, st1)
           | IPA_returns r gv' zv' av' \<Rightarrow>
               (Ok r, poke ansvec (DblArr av') (poke zhvec (DblArr zv') (poke gvec (DblArr gv') st1))))
      | _ \<Rightarrow> (Fault, st))"

text \<open>The handles that \<^verbatim>\<open>GNM\<close> creates with \<^verbatim>\<open>new cvector\<close>, one per row.\<close>

fun new_handles ::
  "'d list list \<Rightarrow> ('d, 'x) store_scheme \<Rightarrow> addr list \<times> ('d, 'x) store_scheme" where
  "new_handles [] st = ([], st)"
| "new_handles (r # rs) st =
     (case blk_alloc by_new (DblArr r) st of
        (a, st1) \<Rightarrow> (case new_handles rs st1 of (as, st2) \<Rightarrow> (a # as, st2)))"

text \<open>
  The statement \<^verbatim>\<open>found = GNM(A, gvec, Eq, steps, fuzz, lnmfreq, lnmmax, lambdamin, wobble,
  threshold)\<close>: \<open>Eq\<close> is written by the solver through the reference, \<open>found\<close> is assigned
  only when the call returns.
\<close>

definition call_GNM ::
  "'d world \<Rightarrow> addr \<Rightarrow> addr \<Rightarrow> c_int \<Rightarrow> 'd \<Rightarrow> c_int \<Rightarrow> c_int \<Rightarrow> 'd \<Rightarrow> c_int \<Rightarrow> 'd \<Rightarrow>
   'd gnm_frame \<Rightarrow> unit result \<times> 'd gnm_frame" where
  "call_GNM W A gvec steps fuzz lnmfreq lnmmax lambdamin wobble threshold st =
     (case (game_of st A, dbls_of st gvec) of
        (Some gm, Some gv) \<Rightarrow>
          (let st1 = st\<lparr>solver_calls := Suc (solver_calls st)\<rparr> in
           case GNM W gm gv steps fuzz lnmfreq lnmmax lambdamin wobble threshold of
             GNM_throws e eq \<Rightarrow>
               (case eq of
                  None \<Rightarrow> (Throw e, st1)
                | Some rows \<Rightarrow>
                    (case new_handles rows st1 of
                       (hs, st3) \<Rightarrow>
                         (case blk_alloc by_malloc (PtrArr hs) st3 of
                            (a, st4) \<Rightarrow> (Throw e, st4\<lparr>Eq := Some a\<rparr>))))
           | GNM_returns r gv' eq \<Rightarrow>
               (let st2 = poke gvec (DblArr gv') st1 in
                case eq of
                  None \<Rightarrow> (Ok (), st2\<lparr>found := r\<rparr>)
                | Some rows \<Rightarrow>
                    (case new_handles rows st2 of
                       (hs, st3) \<Rightarrow>
                         (case blk_alloc by_malloc (PtrArr hs) st3 of
                            (a, st4) \<Rightarrow> (Ok (), st4\<lparr>Eq := Some a, found := r\<rparr>)))))
      | _ \<Rightarrow> (Fault, st))"

subsection \<open>The shim\<close>

text \<open>\<^verbatim>\<open>cleanup_eq\<close>: its loop \<^verbatim>\<open>for (k = 0; k < numEq; ++k) delete Eq[k]\<close>, then the function.\<close>

function delete_rows ::
  "addr \<Rightarrow> nat \<Rightarrow> nat \<Rightarrow> ('d, 'x) store_scheme \<Rightarrow> unit result \<times> ('d, 'x) store_scheme" where
  "delete_rows eq n k st =
     (if k < n then
        (case ptrs_of st eq of
           Some hs \<Rightarrow>
             if k < length hs then
               (case release by_new (hs ! k) st of
                  (Ok u, st1) \<Rightarrow> delete_rows eq n (k + 1) st1
                | (Throw e, st1) \<Rightarrow> (Throw e, st1)
                | (Fault, st1) \<Rightarrow> (Fault, st1))
             else (Fault, st)
         | None \<Rightarrow> (Fault, st))
      else (Ok (), st))"
  by pat_completeness auto
termination
  by (relation "measure (\<lambda>(eq, n, k, st). n - k)") auto

declare delete_rows.simps [simp del]

definition cleanup_eq ::
  "addr option \<Rightarrow> c_int \<Rightarrow> ('d, 'x) store_scheme \<Rightarrow> unit result \<times> ('d, 'x) store_scheme" where
  "cleanup_eq eq numEq st =
     (case eq of
        None \<Rightarrow> (Ok (), st)
      | Some a \<Rightarrow> andthen (delete_rows a (nat (sint numEq)) 0) (\<lambda>u. std_free (Some a)) st)"

definition gametracer_free ::
  "addr option \<Rightarrow> ('d, 'x) store_scheme \<Rightarrow> unit result \<times> ('d, 'x) store_scheme" where
  "gametracer_free p st = std_free p st"

text \<open>The loop \<^verbatim>\<open>for (p = 0; p < sz.N; ++p) acts[p] = actions[p]\<close>.\<close>

function copy_actions ::
  "addr \<Rightarrow> addr \<Rightarrow> nat \<Rightarrow> nat \<Rightarrow> ('d, 'x) store_scheme \<Rightarrow> unit result \<times> ('d, 'x) store_scheme" where
  "copy_actions acts actions n p st =
     (if p < n then
        (case (ints_of st actions, ints_of st acts) of
           (Some src, Some dst) \<Rightarrow>
             if p < length src \<and> p < length dst
             then copy_actions acts actions n (p + 1) (poke acts (IntArr (dst[p := src ! p])) st)
             else (Fault, st)
         | _ \<Rightarrow> (Fault, st))
      else (Ok (), st))"
  by pat_completeness auto
termination
  by (relation "measure (\<lambda>(acts, actions, n, p, st). n - p)") auto

declare copy_actions.simps [simp del]

text \<open>
  The body of the \<^verbatim>\<open>try\<close> block of \<^verbatim>\<open>ipa\<close>. The pointers are known to be non-null here and
  are passed as addresses.
\<close>

definition ipa_try ::
  "'d world \<Rightarrow> GameSizes \<Rightarrow> addr \<Rightarrow> addr \<Rightarrow> addr \<Rightarrow> addr \<Rightarrow> 'd \<Rightarrow> 'd \<Rightarrow> addr \<Rightarrow>
   ('d, 'x) store_scheme \<Rightarrow> c_int result \<times> ('d, 'x) store_scheme" where
  "ipa_try W sz actions payoffs g zh alpha fuzz ans =
     scoped (new_vector W Acts (elems (sz_N sz))) (\<lambda>acts.
     andthen (copy_actions acts actions (nat (sint (sz_N sz))) 0) (\<lambda>u.
     scoped (new_cvector W Payvec (sz_payoff_len sz)) (\<lambda>payvec.
     andthen (memcpy payvec 0 payoffs (elems (sz_payoff_len sz))) (\<lambda>u.
     scoped (new_nfgame W (sz_N sz) acts payvec) (\<lambda>A.
     scoped (new_cvector W Gvec (sz_M sz)) (\<lambda>gvec.
     andthen (memcpy gvec 0 g (elems (sz_M sz))) (\<lambda>u.
     scoped (new_cvector W Zhvec (sz_M sz)) (\<lambda>zhvec.
     andthen (memcpy zhvec 0 zh (elems (sz_M sz))) (\<lambda>u.
     scoped (new_cvector W Ansvec (sz_M sz)) (\<lambda>ansvec.
     andthen (call_IPA W A gvec zhvec alpha fuzz ansvec) (\<lambda>ret.
     andthen (memcpy zh 0 zhvec (elems (sz_M sz))) (\<lambda>u.
     andthen (memcpy ans 0 ansvec (elems (sz_M sz))) (\<lambda>u.
     yield ret)))))))))))))"

text \<open>The exported \<^verbatim>\<open>ipa\<close>, with its two handlers.\<close>

definition ipa ::
  "'d world \<Rightarrow> c_int \<Rightarrow> addr option \<Rightarrow> addr option \<Rightarrow> addr option \<Rightarrow> addr option \<Rightarrow>
   'd \<Rightarrow> 'd \<Rightarrow> addr option \<Rightarrow> 'd store \<Rightarrow> c_int result \<times> 'd store" where
  "ipa W num_players actions payoffs g zh alpha fuzz ans st =
     (if actions = None \<or> payoffs = None \<or> g = None \<or> zh = None \<or> ans = None
      then (Ok (- 1), st)
      else (case compute_sizes num_players (ints_at st actions) of
              Fault \<Rightarrow> (Fault, st)
            | Throw e \<Rightarrow> (Throw e, st)
            | Ok None \<Rightarrow> (Ok (- 1), st)
            | Ok (Some sz) \<Rightarrow>
                (case ipa_try W sz (the actions) (the payoffs) (the g) (the zh) alpha fuzz
                        (the ans) st of
                   (Throw bad_alloc, st') \<Rightarrow> (Ok (- 2), st')
                 | (Throw other_exception, st') \<Rightarrow> (Ok (- 3), st')
                 | (r, st') \<Rightarrow> (r, st'))))"

text \<open>The loop that packs the rows: \<^verbatim>\<open>memcpy(buf + k * M, Eq[k]->values(), M * sizeof(double))\<close>.\<close>

function pack_rows ::
  "addr \<Rightarrow> addr option \<Rightarrow> nat \<Rightarrow> nat \<Rightarrow> nat \<Rightarrow> ('d, 'x) store_scheme \<Rightarrow>
   unit result \<times> ('d, 'x) store_scheme" where
  "pack_rows b eq m n k st =
     (if k < n then
        (case (case eq of None \<Rightarrow> None | Some a \<Rightarrow> ptrs_of st a) of
           Some hs \<Rightarrow>
             if k < length hs then
               (case memcpy b (k * m) (hs ! k) m st of
                  (Ok u, st1) \<Rightarrow> pack_rows b eq m n (k + 1) st1
                | (Throw e, st1) \<Rightarrow> (Throw e, st1)
                | (Fault, st1) \<Rightarrow> (Fault, st1))
             else (Fault, st)
         | None \<Rightarrow> (Fault, st))
      else (Ok (), st))"
  by pat_completeness auto
termination
  by (relation "measure (\<lambda>(b, eq, m, n, k, st). n - k)") auto

declare pack_rows.simps [simp del]

text \<open>
  The statements of \<^verbatim>\<open>gnm\<close> after the call of \<^verbatim>\<open>GNM\<close>, up to the \<^verbatim>\<open>return\<close>. The product
  \<^verbatim>\<open>static_cast<size_t>(found) * static_cast<size_t>(sz.M)\<close> is computed in \<^verbatim>\<open>size_t\<close>.
\<close>

definition gnm_marshal ::
  "'d world \<Rightarrow> GameSizes \<Rightarrow> addr \<Rightarrow> 'd gnm_frame \<Rightarrow> c_int result \<times> 'd gnm_frame" where
  "gnm_marshal W sz answers st =
     (if found st = 0 then
        andthen (cleanup_eq (Eq st) 0) (\<lambda>u.
        andthen (write_ptr answers None) (\<lambda>u.
        yield 0)) st
      else if sint (found st) < 0 then
        andthen (cleanup_eq (Eq st) 0) (\<lambda>u.
        andthen (write_ptr answers None) (\<lambda>u.
        yield (- 3))) st
      else
        (let total = scast (found st) * scast (sz_M sz) :: size_t in
         case malloc W (unat total) st of
           (b, st1) \<Rightarrow>
             (let st2 = st1\<lparr>buf := b\<rparr> in
              case b of
                None \<Rightarrow>
                  andthen (cleanup_eq (Eq st2) (found st2)) (\<lambda>u s.
                  yield (- 2) (s\<lparr>Eq := None\<rparr>)) st2
              | Some ba \<Rightarrow>
                  andthen (pack_rows ba (Eq st2) (elems (sz_M sz)) (nat (sint (found st2))) 0) (\<lambda>u.
                  andthen (cleanup_eq (Eq st2) (found st2)) (\<lambda>u s.
                  andthen (write_ptr answers (Some ba)) (\<lambda>u s'.
                  yield (found s') (s'\<lparr>buf := None\<rparr>)) (s\<lparr>Eq := None\<rparr>))) st2)))"

text \<open>The body of the \<^verbatim>\<open>try\<close> block of \<^verbatim>\<open>gnm\<close>.\<close>

definition gnm_try ::
  "'d world \<Rightarrow> GameSizes \<Rightarrow> addr \<Rightarrow> addr \<Rightarrow> addr \<Rightarrow> addr \<Rightarrow>
   c_int \<Rightarrow> 'd \<Rightarrow> c_int \<Rightarrow> c_int \<Rightarrow> 'd \<Rightarrow> c_int \<Rightarrow> 'd \<Rightarrow>
   'd gnm_frame \<Rightarrow> c_int result \<times> 'd gnm_frame" where
  "gnm_try W sz actions payoffs g answers steps fuzz lnmfreq lnmmax lambdamin wobble threshold =
     scoped (new_vector W Acts (elems (sz_N sz))) (\<lambda>acts.
     andthen (copy_actions acts actions (nat (sint (sz_N sz))) 0) (\<lambda>u.
     scoped (new_cvector W Payvec (sz_payoff_len sz)) (\<lambda>payvec.
     andthen (memcpy payvec 0 payoffs (elems (sz_payoff_len sz))) (\<lambda>u.
     scoped (new_nfgame W (sz_N sz) acts payvec) (\<lambda>A.
     scoped (new_cvector W Gvec (sz_M sz)) (\<lambda>gvec.
     andthen (memcpy gvec 0 g (elems (sz_M sz))) (\<lambda>u.
     andthen (call_GNM W A gvec steps fuzz lnmfreq lnmmax lambdamin wobble threshold) (\<lambda>u.
     gnm_marshal W sz answers))))))))"

text \<open>
  The two handlers of \<^verbatim>\<open>gnm\<close>: they differ in the code they return only.
\<close>

definition gnm_catch :: "exn \<Rightarrow> addr \<Rightarrow> 'd gnm_frame \<Rightarrow> c_int result \<times> 'd gnm_frame" where
  "gnm_catch e answers st =
     andthen (case buf st of None \<Rightarrow> yield () | Some b \<Rightarrow> std_free (Some b)) (\<lambda>u.
     andthen (cleanup_eq (Eq st) (if 0 < sint (found st) then found st else 0)) (\<lambda>u.
     andthen (write_ptr answers None) (\<lambda>u.
     yield (case e of bad_alloc \<Rightarrow> - 2 | other_exception \<Rightarrow> - 3)))) st"

text \<open>The exported \<^verbatim>\<open>gnm\<close>.\<close>

definition gnm ::
  "'d world \<Rightarrow> c_int \<Rightarrow> addr option \<Rightarrow> addr option \<Rightarrow> addr option \<Rightarrow> addr option \<Rightarrow>
   c_int \<Rightarrow> 'd \<Rightarrow> c_int \<Rightarrow> c_int \<Rightarrow> 'd \<Rightarrow> c_int \<Rightarrow> 'd \<Rightarrow>
   'd store \<Rightarrow> c_int result \<times> 'd store" where
  "gnm W num_players actions payoffs g answers steps fuzz lnmfreq lnmmax lambdamin wobble
       threshold st =
     (case (case answers of None \<Rightarrow> (Ok (), st) | Some a \<Rightarrow> write_ptr a None st) of
        (Fault, st0) \<Rightarrow> (Fault, st0)
      | (Throw e, st0) \<Rightarrow> (Throw e, st0)
      | (Ok u, st0) \<Rightarrow>
          if actions = None \<or> payoffs = None \<or> g = None \<or> answers = None
          then (Ok (- 1), st0)
          else (case compute_sizes num_players (ints_at st0 actions) of
                  Fault \<Rightarrow> (Fault, st0)
                | Throw e \<Rightarrow> (Throw e, st0)
                | Ok None \<Rightarrow> (Ok (- 1), st0)
                | Ok (Some sz) \<Rightarrow>
                    (case (case gnm_try W sz (the actions) (the payoffs) (the g) (the answers)
                                  steps fuzz lnmfreq lnmmax lambdamin wobble threshold
                                  (enter_gnm st0) of
                             (Throw e, fr) \<Rightarrow> gnm_catch e (the answers) fr
                           | (r, fr) \<Rightarrow> (r, fr)) of
                       (r, fr) \<Rightarrow> (r, leave_gnm fr))))"

subsection \<open>Vocabulary of the statements\<close>

text \<open>
  A store is well-formed when nothing lives at or above \<open>brk\<close>, so that a fresh block
  never lands on a live one.
\<close>

definition store_ok :: "('d, 'x) store_scheme \<Rightarrow> bool" where
  "store_ok st \<longleftrightarrow> (\<forall>a. brk st \<le> a \<longrightarrow> mem st a = None)"

text \<open>The counters after \<open>k\<close> allocation requests of which \<open>j\<close> produced a block.\<close>

definition bump :: "nat \<Rightarrow> nat \<Rightarrow> ('d, 'x) store_scheme \<Rightarrow> ('d, 'x) store_scheme" where
  "bump k j st = st\<lparr>allocs := allocs st + k, brk := brk st + j\<rparr>"

text \<open>
  The store once the copies shared by \<^verbatim>\<open>ipa\<close> and \<^verbatim>\<open>gnm\<close> are built: \<open>acts\<close>, \<open>payvec\<close>,
  the game object and \<open>gvec\<close>, at the four addresses from \<open>brk\<close> on, holding the first
  \<open>N\<close>, \<open>N * P\<close> and \<open>M\<close> elements of the caller's arrays \<open>src\<close>, \<open>pay\<close> and \<open>gv\<close>.
\<close>

definition staged ::
  "GameSizes \<Rightarrow> c_int list \<Rightarrow> 'd list \<Rightarrow> 'd list \<Rightarrow> ('d, 'x) store_scheme \<Rightarrow> ('d, 'x) store_scheme" where
  "staged sz src pay gv st =
     st\<lparr>allocs := allocs st + 4, brk := brk st + 4,
        mem := (mem st)
          (brk st \<mapsto> (by_new, IntArr (take (nat (sint (sz_N sz))) src)),
           brk st + 1 \<mapsto> (by_new, DblArr (take (nat (sint (sz_payoff_len sz))) pay)),
           brk st + 2 \<mapsto> (by_new, GameObj (sz_N sz) (take (nat (sint (sz_N sz))) src)
                                      (take (nat (sint (sz_payoff_len sz))) pay)),
           brk st + 3 \<mapsto> (by_new, DblArr (take (nat (sint (sz_M sz))) gv)))\<rparr>"

text \<open>The first exception, if any, that the constructors at the given sites throw.\<close>

fun first_throw :: "'d world \<Rightarrow> site list \<Rightarrow> exn option" where
  "first_throw W [] = None"
| "first_throw W (s # ss) = (case ctor_throws W s of Some e \<Rightarrow> Some e | None \<Rightarrow> first_throw W ss)"

text \<open>The code that the handlers of \<^verbatim>\<open>ipa\<close> and \<^verbatim>\<open>gnm\<close> return for an exception.\<close>

definition error_code :: "exn \<Rightarrow> c_int" where
  "error_code e = (case e of bad_alloc \<Rightarrow> - 2 | other_exception \<Rightarrow> - 3)"

text \<open>
  The blocks of the handles that \<^verbatim>\<open>GNM\<close> created for \<open>rows\<close>, the first one at address
  \<open>a\<close>, as a partial map.
\<close>

definition handle_blocks :: "addr \<Rightarrow> 'd list list \<Rightarrow> addr \<Rightarrow> (origin \<times> 'd block) option" where
  "handle_blocks a rows x =
     (if a \<le> x \<and> x < a + length rows then Some (by_new, DblArr (rows ! (x - a))) else None)"

text \<open>
  A pointer argument designates an array of at least \<open>n\<close> doubles; the contents behind
  a pointer (empty for a pointer that designates no such array).
\<close>

definition dbl_buffer :: "('d, 'x) store_scheme \<Rightarrow> addr option \<Rightarrow> nat \<Rightarrow> bool" where
  "dbl_buffer st p n =
     (case p of None \<Rightarrow> False
      | Some a \<Rightarrow> (case dbls_of st a of None \<Rightarrow> False | Some xs \<Rightarrow> n \<le> length xs))"

definition the_dbls :: "('d, 'x) store_scheme \<Rightarrow> addr option \<Rightarrow> 'd list" where
  "the_dbls st p =
     (case p of None \<Rightarrow> []
      | Some a \<Rightarrow> (case dbls_of st a of None \<Rightarrow> [] | Some xs \<Rightarrow> xs))"

definition the_ints :: "('d, 'x) store_scheme \<Rightarrow> addr option \<Rightarrow> c_int list" where
  "the_ints st p = (case ints_at st p of None \<Rightarrow> [] | Some xs \<Rightarrow> xs)"

text \<open>
  A call of \<^verbatim>\<open>ipa\<close> that is well-formed and passes validation: the store is well-formed,
  \<^verbatim>\<open>compute_sizes\<close> accepts with sizes \<open>sz\<close>, and the four arrays of doubles have the
  lengths of the layout contract, \<open>N * P\<close> for the payoffs and \<open>M\<close> for \<open>g\<close>, \<open>zh\<close> and
  \<open>ans\<close>.
\<close>

definition ipa_accepts ::
  "'d store \<Rightarrow> c_int \<Rightarrow> addr option \<Rightarrow> addr option \<Rightarrow> addr option \<Rightarrow> addr option \<Rightarrow> addr option \<Rightarrow>
   GameSizes \<Rightarrow> bool" where
  "ipa_accepts st num_players actions payoffs g zh ans sz \<longleftrightarrow>
     store_ok st \<and> compute_sizes num_players (ints_at st actions) = Ok (Some sz) \<and>
     dbl_buffer st payoffs (nat (sint (sz_payoff_len sz))) \<and>
     dbl_buffer st g (nat (sint (sz_M sz))) \<and>
     dbl_buffer st zh (nat (sint (sz_M sz))) \<and>
     dbl_buffer st ans (nat (sint (sz_M sz)))"

text \<open>What the solver \<^verbatim>\<open>IPA\<close> does on the copies that \<^verbatim>\<open>ipa\<close> hands to it.\<close>

definition ipa_solver ::
  "'d world \<Rightarrow> 'd store \<Rightarrow> GameSizes \<Rightarrow> addr option \<Rightarrow> addr option \<Rightarrow> addr option \<Rightarrow> addr option \<Rightarrow>
   'd \<Rightarrow> 'd \<Rightarrow> 'd ipa_outcome" where
  "ipa_solver W st sz actions payoffs g zh alpha fuzz =
     IPA W (sz_N sz, take (nat (sint (sz_N sz))) (the_ints st actions),
            take (nat (sint (sz_payoff_len sz))) (the_dbls st payoffs))
       (take (nat (sint (sz_M sz))) (the_dbls st g))
       (take (nat (sint (sz_M sz))) (the_dbls st zh)) alpha fuzz
       (map (uninit W (brk st + 5)) [0..<nat (sint (sz_M sz))])"

text \<open>
  The solver keeps the length of the vectors it is given: \<open>zh\<close> and \<open>ans\<close> still hold
  \<open>M\<close> values when it returns.
\<close>

definition ipa_solver_ok ::
  "'d world \<Rightarrow> 'd store \<Rightarrow> GameSizes \<Rightarrow> addr option \<Rightarrow> addr option \<Rightarrow> addr option \<Rightarrow> addr option \<Rightarrow>
   'd \<Rightarrow> 'd \<Rightarrow> bool" where
  "ipa_solver_ok W st sz actions payoffs g zh alpha fuzz =
     (case ipa_solver W st sz actions payoffs g zh alpha fuzz of
        IPA_throws e \<Rightarrow> True
      | IPA_returns r gv' zv' av' \<Rightarrow>
          nat (sint (sz_M sz)) \<le> length zv' \<and> nat (sint (sz_M sz)) \<le> length av')"

text \<open>The exception, if any, raised inside the \<^verbatim>\<open>try\<close> block of \<^verbatim>\<open>ipa\<close>.\<close>

definition ipa_raises ::
  "'d world \<Rightarrow> 'd store \<Rightarrow> GameSizes \<Rightarrow> addr option \<Rightarrow> addr option \<Rightarrow> addr option \<Rightarrow> addr option \<Rightarrow>
   'd \<Rightarrow> 'd \<Rightarrow> exn option" where
  "ipa_raises W st sz actions payoffs g zh alpha fuzz =
     (case first_throw W [Acts, Payvec, Nfgame, Gvec, Zhvec, Ansvec] of
        Some e \<Rightarrow> Some e
      | None \<Rightarrow>
          (case ipa_solver W st sz actions payoffs g zh alpha fuzz of
             IPA_throws e \<Rightarrow> Some e
           | IPA_returns r gv' zv' av' \<Rightarrow> None))"

text \<open>
  Memory after the first \<open>n\<close> elements of \<open>xs\<close> have been copied to the array behind \<open>p\<close>.
\<close>

definition put_dbls ::
  "addr option \<Rightarrow> nat \<Rightarrow> 'd list \<Rightarrow> (addr \<Rightarrow> (origin \<times> 'd block) option) \<Rightarrow>
   addr \<Rightarrow> (origin \<times> 'd block) option" where
  "put_dbls p n xs m =
     (case p of None \<Rightarrow> m
      | Some a \<Rightarrow>
          (case m a of
             Some (og, DblArr old) \<Rightarrow> m(a \<mapsto> (og, DblArr (take n xs @ drop n old)))
           | _ \<Rightarrow> m))"

text \<open>
  The observable behaviour of an accepted call of \<^verbatim>\<open>ipa\<close>, stated without the shim: the
  return value and the memory afterwards.
\<close>

definition ipa_spec ::
  "'d world \<Rightarrow> 'd store \<Rightarrow> GameSizes \<Rightarrow> addr option \<Rightarrow> addr option \<Rightarrow> addr option \<Rightarrow> addr option \<Rightarrow>
   'd \<Rightarrow> 'd \<Rightarrow> addr option \<Rightarrow> c_int \<times> (addr \<Rightarrow> (origin \<times> 'd block) option)" where
  "ipa_spec W st sz actions payoffs g zh alpha fuzz ans =
     (case first_throw W [Acts, Payvec, Nfgame, Gvec, Zhvec, Ansvec] of
        Some e \<Rightarrow> (error_code e, mem st)
      | None \<Rightarrow>
          (case ipa_solver W st sz actions payoffs g zh alpha fuzz of
             IPA_throws e \<Rightarrow> (error_code e, mem st)
           | IPA_returns r gv' zv' av' \<Rightarrow>
               (r, put_dbls ans (nat (sint (sz_M sz))) av'
                     (put_dbls zh (nat (sint (sz_M sz))) zv' (mem st)))))"

text \<open>
  A call of \<^verbatim>\<open>gnm\<close> that is well-formed and passes validation: as for \<^verbatim>\<open>ipa\<close>, with
  \<open>answers\<close> the address of a pointer variable of the caller.
\<close>

definition ptr_slot :: "('d, 'x) store_scheme \<Rightarrow> addr option \<Rightarrow> bool" where
  "ptr_slot st p = (case p of None \<Rightarrow> False | Some a \<Rightarrow> cell_of st a \<noteq> None)"

definition gnm_accepts ::
  "'d store \<Rightarrow> c_int \<Rightarrow> addr option \<Rightarrow> addr option \<Rightarrow> addr option \<Rightarrow> addr option \<Rightarrow>
   GameSizes \<Rightarrow> bool" where
  "gnm_accepts st num_players actions payoffs g answers sz \<longleftrightarrow>
     store_ok st \<and> compute_sizes num_players (ints_at st actions) = Ok (Some sz) \<and>
     dbl_buffer st payoffs (nat (sint (sz_payoff_len sz))) \<and>
     dbl_buffer st g (nat (sint (sz_M sz))) \<and>
     ptr_slot st answers"

text \<open>What the solver \<^verbatim>\<open>GNM\<close> does on the copies that \<^verbatim>\<open>gnm\<close> hands to it.\<close>

definition gnm_solver ::
  "'d world \<Rightarrow> 'd store \<Rightarrow> GameSizes \<Rightarrow> addr option \<Rightarrow> addr option \<Rightarrow> addr option \<Rightarrow>
   c_int \<Rightarrow> 'd \<Rightarrow> c_int \<Rightarrow> c_int \<Rightarrow> 'd \<Rightarrow> c_int \<Rightarrow> 'd \<Rightarrow> 'd gnm_outcome" where
  "gnm_solver W st sz actions payoffs g steps fuzz lnmfreq lnmmax lambdamin wobble threshold =
     GNM W (sz_N sz, take (nat (sint (sz_N sz))) (the_ints st actions),
            take (nat (sint (sz_payoff_len sz))) (the_dbls st payoffs))
       (take (nat (sint (sz_M sz))) (the_dbls st g))
       steps fuzz lnmfreq lnmmax lambdamin wobble threshold"

text \<open>
  The solver honours its result convention: a positive count \<open>k\<close> comes with an array
  of \<open>k\<close> handles, each a vector of at least \<open>M\<close> values.
\<close>

definition gnm_solver_ok ::
  "'d world \<Rightarrow> 'd store \<Rightarrow> GameSizes \<Rightarrow> addr option \<Rightarrow> addr option \<Rightarrow> addr option \<Rightarrow>
   c_int \<Rightarrow> 'd \<Rightarrow> c_int \<Rightarrow> c_int \<Rightarrow> 'd \<Rightarrow> c_int \<Rightarrow> 'd \<Rightarrow> bool" where
  "gnm_solver_ok W st sz actions payoffs g steps fuzz lnmfreq lnmmax lambdamin wobble threshold =
     (case gnm_solver W st sz actions payoffs g steps fuzz lnmfreq lnmmax lambdamin wobble
             threshold of
        GNM_throws e eq \<Rightarrow> True
      | GNM_returns r gv' eq \<Rightarrow>
          sint r \<le> 0 \<or>
          (case eq of
             None \<Rightarrow> False
           | Some rows \<Rightarrow>
               length rows = nat (sint r) \<and>
               list_all (\<lambda>row. nat (sint (sz_M sz)) \<le> length row) rows))"

text \<open>Memory after the pointer variable behind \<open>p\<close> has been assigned \<open>v\<close>.\<close>

definition set_slot ::
  "addr option \<Rightarrow> addr option \<Rightarrow> (addr \<Rightarrow> (origin \<times> 'd block) option) \<Rightarrow>
   addr \<Rightarrow> (origin \<times> 'd block) option" where
  "set_slot p v m =
     (case p of None \<Rightarrow> m
      | Some a \<Rightarrow> (case m a of Some (og, PtrCell old) \<Rightarrow> m(a \<mapsto> (og, PtrCell v)) | _ \<Rightarrow> m))"

definition rows_of :: "'d list list option \<Rightarrow> 'd list list" where
  "rows_of eq = (case eq of None \<Rightarrow> [] | Some rows \<Rightarrow> rows)"

text \<open>
  The observable behaviour of an accepted call of \<^verbatim>\<open>gnm\<close>, stated without the shim: the
  return value and the memory afterwards. The result block of a successful call is the
  fresh block that follows the four copies, the array of handles and the handles.
\<close>

definition gnm_spec ::
  "'d world \<Rightarrow> 'd store \<Rightarrow> GameSizes \<Rightarrow> addr option \<Rightarrow> addr option \<Rightarrow> addr option \<Rightarrow> addr option \<Rightarrow>
   c_int \<Rightarrow> 'd \<Rightarrow> c_int \<Rightarrow> c_int \<Rightarrow> 'd \<Rightarrow> c_int \<Rightarrow> 'd \<Rightarrow>
   c_int \<times> (addr \<Rightarrow> (origin \<times> 'd block) option)" where
  "gnm_spec W st sz actions payoffs g answers steps fuzz lnmfreq lnmmax lambdamin wobble
       threshold =
     (case first_throw W [Acts, Payvec, Nfgame, Gvec] of
        Some e \<Rightarrow> (error_code e, set_slot answers None (mem st))
      | None \<Rightarrow>
          (case gnm_solver W st sz actions payoffs g steps fuzz lnmfreq lnmmax lambdamin wobble
                  threshold of
             GNM_throws e eq \<Rightarrow>
               (error_code e,
                set_slot answers None (mem st) ++ handle_blocks (brk st + 4) (rows_of eq))
           | GNM_returns r gv' eq \<Rightarrow>
               if sint r \<le> 0
               then (if r = 0 then 0 else - 3,
                     set_slot answers None (mem st) ++ handle_blocks (brk st + 4) (rows_of eq))
               else if malloc_fails W then (- 2, set_slot answers None (mem st))
               else (r, (set_slot answers (Some (brk st + 5 + nat (sint r))) (mem st))
                          (brk st + 5 + nat (sint r) \<mapsto>
                             (by_malloc,
                              DblArr (concat (map (take (nat (sint (sz_M sz)))) (rows_of eq))))))))"



text \<open>
  The arguments that validation turns down: a player count that is not positive, a null
  pointer among the required ones, an action count that is not positive, or a size
  \<open>M\<close>, \<open>P\<close> or \<open>N * P\<close> beyond \<^verbatim>\<open>INT_MAX\<close>. Here \<open>acts\<close> are the first \<open>num_players\<close>
  action counts.
\<close>

definition malformed :: "c_int \<Rightarrow> c_int list \<Rightarrow> addr option list \<Rightarrow> bool" where
  "malformed num_players acts ptrs \<longleftrightarrow>
     sint num_players \<le> 0 \<or> None \<in> set ptrs \<or> list_ex (\<lambda>a. sint a \<le> 0) acts \<or>
     INT_MAX < total_actions acts \<or> INT_MAX < profile_count acts \<or>
     INT_MAX < sint num_players * profile_count acts"

subsection \<open>A sample call\<close>

text \<open>
  The caller's memory for the two-player game with action counts 3 and 2: the action
  counts, twelve payoffs, a ray \<open>g\<close>, a work buffer \<open>zh\<close>, an answer buffer \<open>ans\<close> and a
  pointer variable for the result block of \<^verbatim>\<open>gnm\<close>, at the addresses 10 to 15. Doubles are
  integers here.
\<close>

definition sample_store :: "int store" where
  "sample_store =
     \<lparr>mem = [10 \<mapsto> (by_caller, IntArr [3, 2]),
             11 \<mapsto> (by_caller, DblArr [3, 2, 0, 3, 5, 6, 3, 2, 3, 2, 6, 1]),
             12 \<mapsto> (by_caller, DblArr [0, 0, 1, 0, 1]),
             13 \<mapsto> (by_caller, DblArr [1, 1, 1, 1, 1]),
             14 \<mapsto> (by_caller, DblArr [7, 7, 7, 7, 7]),
             15 \<mapsto> (by_caller, PtrCell (Some 77))],
      brk = 16, allocs = 0, solver_calls = 0\<rparr>"

definition sample_sizes :: GameSizes where
  "sample_sizes = \<lparr>sz_N = 2, sz_M = 5, sz_P = 6, sz_payoff_len = 12\<rparr>"

text \<open>
  Collaborators that never fail: \<^verbatim>\<open>IPA\<close> returns \<open>r\<close>, adds one to every entry of \<open>zh\<close> and
  answers the reversed ray; \<^verbatim>\<open>GNM\<close> finds \<open>k\<close> equilibria, the first \<open>k\<close> of two fixed rows.
\<close>

definition sample_world :: "c_int \<Rightarrow> c_int \<Rightarrow> int world" where
  "sample_world r k =
     \<lparr>ctor_throws = (\<lambda>s. None), malloc_fails = False, uninit = (\<lambda>a i. 0),
      IPA = (\<lambda>gm gv zv alpha fuzz av. IPA_returns r gv (map (\<lambda>x. x + 1) zv) (rev gv)),
      GNM = (\<lambda>gm gv steps fuzz lnmfreq lnmmax lambdamin wobble threshold.
               GNM_returns k (map uminus gv)
                 (Some (take (nat (sint k)) [[1, 0, 0, 1, 0], [0, 1, 0, 0, 1]])))\<rparr>"

text \<open>The same memory with action counts whose product \<open>2 ^ 32\<close> is beyond \<^verbatim>\<open>INT_MAX\<close>.\<close>

definition overflow_store :: "int store" where
  "overflow_store =
     sample_store\<lparr>mem := (mem sample_store)(10 \<mapsto> (by_caller, IntArr [65536, 65536]))\<rparr>"

text \<open>
  The sample memory with other initial contents in \<open>ans\<close>, and collaborators whose last
  constructor, the one of \<^verbatim>\<open>ansvec\<close>, throws \<^verbatim>\<open>std::bad_alloc\<close>.
\<close>

definition second_store :: "int store" where
  "second_store = poke 14 (DblArr [9, 9, 9, 9, 9]) sample_store"

definition nomem_world :: "int world" where
  "nomem_world =
     (sample_world 1 2)\<lparr>ctor_throws := (\<lambda>s. if s = Ansvec then Some bad_alloc else None)\<rparr>"


section \<open>Supporting lemmas\<close>

subsection \<open>Facts about the size validator\<close>

lemma sint_c_int_bound: "sint (a :: c_int) < 2147483648"
  using sint_lt [of a] by simp

lemma uint_scast_pos:
  assumes "0 < sint (a :: c_int)"
  shows "uint (scast a :: size_t) = sint a"
proof -
  have b: "sint a < 2147483648" by (rule sint_c_int_bound)
  have "uint (scast a :: size_t) = uint (word_of_int (sint a) :: size_t)"
    by (subst scast_eq) (rule refl)
  also have "\<dots> = sint a mod 2 ^ 64"
    by (subst uint_word_of_int) simp
  also have "\<dots> = sint a" using assms b by simp
  finally show ?thesis .
qed

lemma unat_scast_pos:
  "0 < sint (a :: c_int) \<Longrightarrow> unat (scast a :: size_t) = nat (sint a)"
  by (simp add: unat_eq_nat_uint uint_scast_pos)

lemma scast_pos_of_nat:
  "0 < sint (a :: c_int) \<Longrightarrow> (scast a :: size_t) = word_of_nat (nat (sint a))"
  by (metis of_nat_unat ucast_id unat_scast_pos)

lemma unat_size_max: "unat (- 1 :: size_t) = 18446744073709551615"
  by (simp add: unsigned_minus_1_eq_mask mask_eq_exp_minus_1)

lemma size_max_div_less:
  assumes "unat (x :: size_t) \<noteq> 0"
  shows "((- 1) div x < P) = (18446744073709551616 \<le> unat P * unat x)"
proof -
  have "((- 1) div x < P) = (18446744073709551615 div unat x < unat P)"
    by (simp add: word_less_nat_alt unat_div unat_size_max)
  also have "\<dots> = (18446744073709551615 < unat P * unat x)"
    using assms by (simp add: div_less_iff_less_mult)
  also have "\<dots> = (18446744073709551616 \<le> unat P * unat x)" by auto
  finally show ?thesis .
qed

lemma sizes_loop_Some:
  "sizes_loop actions n p M P = Ok (Some (M', P')) \<Longrightarrow>
     (\<forall>i. p \<le> i \<and> i < n \<longrightarrow> i < length actions \<and> 0 < sint (actions ! i)) \<and>
     M' = M + word_of_nat (\<Sum>i = p..<n. nat (sint (actions ! i))) \<and>
     unat P' = unat P * (\<Prod>i = p..<n. nat (sint (actions ! i)))"
proof (induction actions n p M P rule: sizes_loop.induct)
  case (1 actions n p M P)
  show ?case
  proof (cases "p < n")
    case False
    with "1.prems" show ?thesis by (simp add: sizes_loop.simps)
  next
    case True
    from True "1.prems" have inb: "p < length actions"
      by (simp add: sizes_loop.simps split: if_splits)
    define ap where "ap = actions ! p"
    from True inb "1.prems" have pos: "0 < sint ap"
      by (simp add: sizes_loop.simps ap_def Let_def split: if_splits)
    from True inb pos "1.prems" have nov: "\<not> (- 1) div scast ap < P"
      by (simp add: sizes_loop.simps ap_def Let_def split: if_splits)
    from True inb pos nov "1.prems"
    have rec: "sizes_loop actions n (p + 1) (M + scast ap) (P * scast ap) = Ok (Some (M', P'))"
      by (simp add: sizes_loop.simps [of actions n p] ap_def Let_def)
    have ih: "(\<forall>i. p + 1 \<le> i \<and> i < n \<longrightarrow> i < length actions \<and> 0 < sint (actions ! i)) \<and>
       M' = (M + scast ap) + word_of_nat (\<Sum>i = p + 1..<n. nat (sint (actions ! i))) \<and>
       unat P' = unat (P * scast ap) * (\<Prod>i = p + 1..<n. nat (sint (actions ! i)))"
      using "1.IH" [OF True inb ap_def] pos nov rec by simp
    have u: "unat (scast ap :: size_t) = nat (sint ap)" using pos by (rule unat_scast_pos)
    have "unat (scast ap :: size_t) \<noteq> 0" using pos u by simp
    with nov have "unat P * unat (scast ap :: size_t) < 18446744073709551616"
      by (simp add: size_max_div_less)
    then have m: "unat (P * scast ap) = unat P * nat (sint ap)"
      using u by (simp add: unat_mult_lem [THEN iffD1])
    have a: "\<forall>i. p \<le> i \<and> i < n \<longrightarrow> i < length actions \<and> 0 < sint (actions ! i)"
    proof (intro allI impI)
      fix i assume "p \<le> i \<and> i < n"
      then consider "i = p" | "p + 1 \<le> i \<and> i < n" by force
      then show "i < length actions \<and> 0 < sint (actions ! i)"
        using inb pos ih by cases (auto simp: ap_def)
    qed
    have s: "(\<Sum>i = p..<n. nat (sint (actions ! i))) =
        nat (sint ap) + (\<Sum>i = p + 1..<n. nat (sint (actions ! i)))"
      using True by (simp add: sum.atLeast_Suc_lessThan ap_def)
    have "M' = (M + scast ap) + word_of_nat (\<Sum>i = p + 1..<n. nat (sint (actions ! i)))"
      using ih by blast
    then have b: "M' = M + word_of_nat (\<Sum>i = p..<n. nat (sint (actions ! i)))"
      unfolding s scast_pos_of_nat [OF pos] by (simp only: of_nat_add add.assoc)
    have t: "(\<Prod>i = p..<n. nat (sint (actions ! i))) =
        nat (sint ap) * (\<Prod>i = p + 1..<n. nat (sint (actions ! i)))"
      using True by (simp add: prod.atLeast_Suc_lessThan ap_def)
    have "unat P' = unat (P * scast ap) * (\<Prod>i = p + 1..<n. nat (sint (actions ! i)))"
      using ih by blast
    then have c: "unat P' = unat P * (\<Prod>i = p..<n. nat (sint (actions ! i)))"
      unfolding t m by (simp only: mult.assoc)
    from a b c show ?thesis by blast
  qed
qed

lemma sizes_loop_defined:
  "n \<le> length actions \<Longrightarrow> sizes_loop actions n p M P \<noteq> Fault \<and> sizes_loop actions n p M P \<noteq> Throw e"
proof (induction actions n p M P rule: sizes_loop.induct)
  case (1 actions n p M P)
  then show ?case
    by (subst (1 2) sizes_loop.simps) (simp add: Let_def)
qed

lemma sizes_loop_complete:
  "n \<le> length actions \<Longrightarrow> \<forall>i. p \<le> i \<and> i < n \<longrightarrow> 0 < sint (actions ! i) \<Longrightarrow>
   unat P * (\<Prod>i = p..<n. nat (sint (actions ! i))) < 18446744073709551616 \<Longrightarrow>
   \<exists>M' P'. sizes_loop actions n p M P = Ok (Some (M', P'))"
proof (induction actions n p M P rule: sizes_loop.induct)
  case (1 actions n p M P)
  show ?case
  proof (cases "p < n")
    case False
    then show ?thesis by (simp add: sizes_loop.simps)
  next
    case True
    define ap where "ap = actions ! p"
    have inb: "p < length actions" using True "1.prems" by simp
    have pos: "0 < sint ap" using True "1.prems" by (simp add: ap_def)
    have u: "unat (scast ap :: size_t) = nat (sint ap)" using pos by (rule unat_scast_pos)
    define R where "R = (\<Prod>i = p + 1..<n. nat (sint (actions ! i)))"
    have "1 \<le> nat (sint (actions ! i))" if "i \<in> {p + 1..<n}" for i
    proof -
      from that have "p \<le> i \<and> i < n" by simp
      with "1.prems"(2) have "0 < sint (actions ! i)" by blast
      then show ?thesis by simp
    qed
    then have Rpos: "1 \<le> R"
      unfolding R_def by (intro prod_ge_1) blast
    have tot: "unat P * (nat (sint ap) * R) < 18446744073709551616"
      using "1.prems"(3) True by (simp add: prod.atLeast_Suc_lessThan ap_def R_def)
    have "unat P * nat (sint ap) \<le> unat P * nat (sint ap) * R"
      using Rpos by simp
    also have "\<dots> = unat P * (nat (sint ap) * R)"
      by (rule mult.assoc)
    also note tot
    finally have small: "unat P * nat (sint ap) < 18446744073709551616" .
    have "unat (scast ap :: size_t) \<noteq> 0" using pos u by simp
    with small u have nov: "\<not> (- 1) div scast ap < P"
      by (simp add: size_max_div_less)
    from small u have m: "unat (P * scast ap) = unat P * nat (sint ap)"
      by (simp add: unat_mult_lem [THEN iffD1])
    have "\<exists>M' P'. sizes_loop actions n (p + 1) (M + scast ap) (P * scast ap) = Ok (Some (M', P'))"
    proof (rule "1.IH" [OF True inb ap_def])
      show "\<not> sint ap \<le> 0" using pos by simp
      show "\<not> (- 1) div scast ap < P" by (rule nov)
      show "n \<le> length actions" by (rule "1.prems")
      show "\<forall>i. p + 1 \<le> i \<and> i < n \<longrightarrow> 0 < sint (actions ! i)" using "1.prems"(2) by simp
      show "unat (P * scast ap) * (\<Prod>i = p + 1..<n. nat (sint (actions ! i))) < 18446744073709551616"
        using tot m by (simp add: R_def mult.assoc)
    qed
    then show ?thesis
      using True inb pos nov by (subst sizes_loop.simps) (simp add: ap_def Let_def)
  qed
qed

lemma sint_ucast_small:
  assumes "unat (w :: size_t) \<le> 2147483647"
  shows "sint (ucast w :: c_int) = int (unat w)"
proof -
  have "(ucast w :: c_int) = word_of_int (int (unat w))"
    by (metis of_int_of_nat_eq of_nat_unat)
  then have "sint (ucast w :: c_int) = signed_take_bit 31 (int (unat w))"
    by (simp only: sint_sbintrunc') simp
  also have "\<dots> = int (unat w)"
  proof (rule signed_take_bit_int_eq_self)
    show "- (2 ^ 31) \<le> int (unat w)" by (rule order_trans [of _ 0]) simp_all
    have "int (unat w) \<le> int 2147483647" using assms by (simp only: of_nat_le_iff)
    then show "int (unat w) < 2 ^ 31" by simp
  qed
  finally show ?thesis .
qed

lemma int_max_word: "unat (word_of_int INT_MAX :: size_t) = 2147483647"
  by (simp add: INT_MAX_def)

lemma sum_nth_take:
  "n \<le> length xs \<Longrightarrow> (\<Sum>i = 0..<n. f (xs ! i)) = sum_list (map f (take n xs))"
proof -
  assume n: "n \<le> length xs"
  have "sum_list (map f (take n xs)) = (\<Sum>i = 0..<length (map f (take n xs)). map f (take n xs) ! i)"
    by (rule sum_list_sum_nth)
  also have "\<dots> = (\<Sum>i = 0..<n. f (xs ! i))"
    using n by (intro sum.cong) auto
  finally show ?thesis by simp
qed

lemma prod_nth_take:
  "n \<le> length xs \<Longrightarrow> (\<Prod>i = 0..<n. f (xs ! i)) = prod_list (map f (take n xs))"
proof -
  assume n: "n \<le> length xs"
  have "prod_list (map f (take n xs)) = (\<Prod>i = 0..<length (map f (take n xs)). map f (take n xs) ! i)"
    by (rule prod.list_conv_set_nth)
  also have "\<dots> = (\<Prod>i = 0..<n. f (xs ! i))"
    using n by (intro prod.cong) auto
  finally show ?thesis by simp
qed

lemma total_actions_nat:
  "\<forall>a \<in> set acts. 0 < sint a \<Longrightarrow> int (sum_list (map (\<lambda>a. nat (sint a)) acts)) = total_actions acts"
  by (induction acts) (auto simp: total_actions_def)

lemma profile_count_nat:
  "\<forall>a \<in> set acts. 0 < sint a \<Longrightarrow> int (prod_list (map (\<lambda>a. nat (sint a)) acts)) = profile_count acts"
  by (induction acts) (auto simp: profile_count_def nat_mult_distrib)

lemma sum_actions_bound:
  "sum_list (map (\<lambda>a. nat (sint (a :: c_int))) acts) \<le> length acts * 2147483648"
proof (induction acts)
  case Nil
  show ?case by simp
next
  case (Cons a acts)
  have "nat (sint a) \<le> 2147483648" using sint_c_int_bound [of a] by simp
  with Cons show ?case by simp
qed

lemma compute_sizes_Some:
  assumes ok: "compute_sizes num_players (Some actions) = Ok (Some sz)"
  shows "nat (sint num_players) \<le> length actions \<and>
         sizes_fit num_players (take (nat (sint num_players)) actions) \<and>
         sz_N sz = num_players \<and>
         sint (sz_M sz) = total_actions (take (nat (sint num_players)) actions) \<and>
         sint (sz_P sz) = profile_count (take (nat (sint num_players)) actions) \<and>
         sint (sz_payoff_len sz) =
           sint num_players * profile_count (take (nat (sint num_players)) actions)"
proof -
  define n where "n = nat (sint num_players)"
  define acts where "acts = take n actions"
  define f where "f = (\<lambda>a :: c_int. nat (sint a))"
  from ok have npos: "0 < sint num_players"
    by (simp add: compute_sizes_def split: if_splits)
  then have n0: "0 < n" by (simp add: n_def)
  from ok npos obtain M P where
    loop: "sizes_loop actions n 0 0 1 = Ok (Some (M, P))"
    by (auto simp: compute_sizes_def n_def split: result.splits option.splits if_splits)
  from ok npos loop have
    cM: "\<not> word_of_int INT_MAX < M" and cP: "\<not> word_of_int INT_MAX < P" and
    cL: "\<not> word_of_int INT_MAX < scast num_players * P" and
    sz: "sz = \<lparr>sz_N = num_players, sz_M = ucast M, sz_P = ucast P,
               sz_payoff_len = ucast (scast num_players * P)\<rparr>"
    by (auto simp: compute_sizes_def n_def Let_def split: if_splits)
  from sizes_loop_Some [OF loop] have
    rng: "\<forall>i. i < n \<longrightarrow> i < length actions \<and> 0 < sint (actions ! i)" and
    Meq: "M = word_of_nat (\<Sum>i = 0..<n. f (actions ! i))" and
    Peq: "unat P = (\<Prod>i = 0..<n. f (actions ! i))"
    by (simp_all add: f_def)
  from rng n0 have "n - 1 < length actions" by simp
  with n0 have len: "n \<le> length actions" by simp
  have pos: "\<forall>a \<in> set acts. 0 < sint a"
    using rng len by (auto simp: acts_def in_set_conv_nth)
  have S: "(\<Sum>i = 0..<n. f (actions ! i)) = sum_list (map f acts)"
    unfolding acts_def by (rule sum_nth_take [OF len])
  have Pr: "(\<Prod>i = 0..<n. f (actions ! i)) = prod_list (map f acts)"
    unfolding acts_def by (rule prod_nth_take [OF len])
  have nb: "n < 2147483648"
    using sint_c_int_bound [of num_players] npos by (simp add: n_def)
  have "sum_list (map f acts) \<le> length acts * 2147483648"
    unfolding f_def by (rule sum_actions_bound)
  also have "length acts = n" using len by (simp add: acts_def)
  also have "n * 2147483648 \<le> 2147483648 * 2147483648"
    using nb by (intro mult_le_mono1) simp
  finally have Sb: "sum_list (map f acts) < 18446744073709551616" by simp
  have uM: "unat M = sum_list (map f acts)"
    unfolding Meq S using Sb by (simp add: unat_of_nat)
  have uP: "unat P = prod_list (map f acts)"
    unfolding Peq Pr ..
  from cM have bM: "unat M \<le> 2147483647"
    by (simp add: word_less_nat_alt int_max_word)
  from cP have bP: "unat P \<le> 2147483647"
    by (simp add: word_less_nat_alt int_max_word)
  have uN: "unat (scast num_players :: size_t) = n"
    unfolding n_def using npos by (rule unat_scast_pos)
  have "n * unat P \<le> 2147483648 * 2147483647"
    using nb bP by (intro mult_le_mono) simp_all
  then have "unat (scast num_players :: size_t) * unat P < 2 ^ LENGTH(64)"
    unfolding uN by simp
  then have uL: "unat (scast num_players * P) = n * unat P"
    unfolding uN [symmetric] by (rule unat_mult_lem [THEN iffD1])
  from cL have bL: "unat (scast num_players * P) \<le> 2147483647"
    by (simp add: word_less_nat_alt int_max_word)
  have iM: "int (unat M) = total_actions acts"
    unfolding uM f_def using pos by (rule total_actions_nat)
  have iP: "int (unat P) = profile_count acts"
    unfolding uP f_def using pos by (rule profile_count_nat)
  have iN: "int n = sint num_players" using npos by (simp add: n_def)
  have iL: "int (unat (scast num_players * P)) = sint num_players * profile_count acts"
    unfolding uL by (simp add: iN iP [symmetric])
  have "total_actions acts \<le> 2147483647" using bM iM by linarith
  moreover have "profile_count acts \<le> 2147483647" using bP iP by linarith
  moreover have "sint num_players * profile_count acts \<le> 2147483647" using bL iL by linarith
  ultimately have fit: "sizes_fit num_players acts"
    unfolding sizes_fit_def INT_MAX_def using npos pos by simp
  have "sint (sz_M sz) = total_actions acts"
    using sint_ucast_small [OF bM] iM by (simp add: sz)
  moreover have "sint (sz_P sz) = profile_count acts"
    using sint_ucast_small [OF bP] iP by (simp add: sz)
  moreover have "sint (sz_payoff_len sz) = sint num_players * profile_count acts"
    using sint_ucast_small [OF bL] iL by (simp add: sz)
  moreover have "sz_N sz = num_players" by (simp add: sz)
  ultimately show ?thesis
    using len fit by (simp add: acts_def n_def)
qed

lemma compute_sizes_no_fault:
  assumes "nat (sint num_players) \<le> length actions"
  shows "compute_sizes num_players (Some actions) \<noteq> Fault \<and>
         compute_sizes num_players (Some actions) \<noteq> Throw e"
  using sizes_loop_defined [OF assms, of 0 0 1]
  by (auto simp: compute_sizes_def Let_def split: result.splits option.splits)

lemma compute_sizes_rejects:
  assumes "nat (sint num_players) \<le> length actions"
    and "\<not> sizes_fit num_players (take (nat (sint num_players)) actions)"
  shows "compute_sizes num_players (Some actions) = Ok None"
proof (cases "compute_sizes num_players (Some actions)")
  case (Ok r)
  show ?thesis
  proof (cases r)
    case None
    with Ok show ?thesis by simp
  next
    case (Some sz)
    with Ok compute_sizes_Some [of num_players actions sz] assms(2) show ?thesis by simp
  qed
next
  case (Throw e)
  with compute_sizes_no_fault [OF assms(1)] show ?thesis by blast
next
  case Fault
  with compute_sizes_no_fault [OF assms(1)] show ?thesis by blast
qed

lemma compute_sizes_accepts:
  assumes len: "nat (sint num_players) \<le> length actions"
    and fit: "sizes_fit num_players (take (nat (sint num_players)) actions)"
  shows "\<exists>sz. compute_sizes num_players (Some actions) = Ok (Some sz)"
proof -
  define n where "n = nat (sint num_players)"
  define acts where "acts = take n actions"
  define f where "f = (\<lambda>a :: c_int. nat (sint a))"
  from fit have npos: "0 < sint num_players" and pos: "\<forall>a \<in> set acts. 0 < sint a"
    and fM: "total_actions acts \<le> 2147483647" and fP: "profile_count acts \<le> 2147483647"
    and fL: "sint num_players * profile_count acts \<le> 2147483647"
    by (simp_all add: sizes_fit_def acts_def n_def INT_MAX_def)
  have len': "n \<le> length actions" using len by (simp add: n_def)
  have posi: "\<forall>i. 0 \<le> i \<and> i < n \<longrightarrow> 0 < sint (actions ! i)"
  proof (intro allI impI)
    fix i assume i: "0 \<le> i \<and> i < n"
    with len' have "i < length acts" by (simp add: acts_def)
    then have "acts ! i \<in> set acts" by (rule nth_mem)
    moreover from i have "acts ! i = actions ! i" by (simp add: acts_def)
    ultimately show "0 < sint (actions ! i)" using pos by auto
  qed
  have Pr: "(\<Prod>i = 0..<n. f (actions ! i)) = prod_list (map f acts)"
    unfolding acts_def by (rule prod_nth_take [OF len'])
  have S: "(\<Sum>i = 0..<n. f (actions ! i)) = sum_list (map f acts)"
    unfolding acts_def by (rule sum_nth_take [OF len'])
  have iP: "int (prod_list (map f acts)) = profile_count acts"
    unfolding f_def using pos by (rule profile_count_nat)
  have iM: "int (sum_list (map f acts)) = total_actions acts"
    unfolding f_def using pos by (rule total_actions_nat)
  from iP fP have bP: "prod_list (map f acts) \<le> 2147483647" by linarith
  from iM fM have bM: "sum_list (map f acts) \<le> 2147483647" by linarith
  have "unat (1 :: size_t) * (\<Prod>i = 0..<n. nat (sint (actions ! i))) < 18446744073709551616"
    using bP Pr by (simp add: f_def)
  from sizes_loop_complete [OF len' posi this, of 0]
  obtain M P where loop: "sizes_loop actions n 0 0 1 = Ok (Some (M, P))" by blast
  from sizes_loop_Some [OF loop] have
    "M = word_of_nat (\<Sum>i = 0..<n. f (actions ! i))" and
    "unat P = (\<Prod>i = 0..<n. f (actions ! i))"
    by (simp_all add: f_def)
  then have Meq: "M = word_of_nat (sum_list (map f acts))" and
    Peq: "unat P = prod_list (map f acts)"
    unfolding S Pr .
  have uM: "unat M = sum_list (map f acts)"
    unfolding Meq using bM by (simp add: unat_of_nat)
  have cM: "\<not> word_of_int INT_MAX < M"
    using bM uM by (simp add: word_less_nat_alt int_max_word)
  have cP: "\<not> word_of_int INT_MAX < P"
    using bP Peq by (simp add: word_less_nat_alt int_max_word)
  have uN: "unat (scast num_players :: size_t) = n"
    unfolding n_def using npos by (rule unat_scast_pos)
  have iN: "int n = sint num_players" using npos by (simp add: n_def)
  have "int (n * unat P) = sint num_players * profile_count acts"
    by (simp add: iN Peq iP)
  with fL have bL: "n * unat P \<le> 2147483647" by linarith
  then have "unat (scast num_players :: size_t) * unat P < 2 ^ LENGTH(64)"
    unfolding uN by simp
  then have uL: "unat (scast num_players * P) = n * unat P"
    unfolding uN [symmetric] by (rule unat_mult_lem [THEN iffD1])
  have cL: "\<not> word_of_int INT_MAX < scast num_players * P"
    using bL uL by (simp add: word_less_nat_alt int_max_word)
  show ?thesis
    using npos loop cM cP cL by (simp add: compute_sizes_def n_def Let_def)
qed

subsection \<open>Steps of the shim on the store\<close>

lemma elems_pos: "0 < sint x \<Longrightarrow> elems x = nat (sint x)"
  by (simp add: elems_def unat_scast_pos)

lemma live_below: "store_ok st \<Longrightarrow> mem st a = Some v \<Longrightarrow> a < brk st"
  by (metis not_le_imp_less option.distinct(1) store_ok_def)

lemma poke_poke [simp]: "poke a b (poke a c st) = poke a b st"
  by (cases "mem st a") (auto simp: poke_def)

lemma mem_poke:
  "mem (poke a b st) x = (if x = a then map_option (\<lambda>(og, old). (og, b)) (mem st a) else mem st x)"
  by (simp add: poke_def)

lemma poke_fields [simp]:
  "brk (poke a b st) = brk st" "allocs (poke a b st) = allocs st"
  "solver_calls (poke a b st) = solver_calls st"
  by (simp_all add: poke_def)

lemma poke_same:
  "mem st a = Some (og, b) \<Longrightarrow> poke a b st = st"
  by (simp add: poke_def fun_upd_idem_iff)

lemma poke_live:
  "mem st a = Some (og, old) \<Longrightarrow> poke a b st = st\<lparr>mem := (mem st)(a \<mapsto> (og, b))\<rparr>"
  by (simp add: poke_def)

lemma copy_actions_closed:
  assumes "ints_of st actions = Some src" "ints_of st acts = Some dst" "acts \<noteq> actions"
    "n \<le> length src" "length dst = n" "p \<le> n"
  shows "copy_actions acts actions n p st =
           (Ok (), poke acts (IntArr (take p dst @ drop p (take n src))) st)"
  using assms
proof (induction acts actions n p st arbitrary: dst rule: copy_actions.induct)
  case (1 acts actions n p st)
  show ?case
  proof (cases "p < n")
    case False
    with 1(7) have "p = n" by simp
    moreover have "poke acts (IntArr dst) st = st"
      using 1(3) by (auto simp: ints_of_def intro: poke_same split: option.splits block.splits)
    ultimately show ?thesis using 1(6) by (simp add: copy_actions.simps)
  next
    case True
    let ?st1 = "poke acts (IntArr (dst[p := src ! p])) st"
    have a: "ints_of ?st1 actions = Some src"
      using 1(2,4) by (simp add: mem_poke ints_of_def)
    have b: "ints_of ?st1 acts = Some (dst[p := src ! p])"
      using 1(3) by (auto simp: mem_poke ints_of_def split: option.splits block.splits)
    have "copy_actions acts actions n (p + 1) ?st1 =
       (Ok (), poke acts (IntArr (take (p + 1) (dst[p := src ! p]) @ drop (p + 1) (take n src))) ?st1)"
      using True 1(2-7) by (intro "1.IH" [OF True _ refl]) (simp_all add: a b)
    moreover have "poke acts (IntArr (take (p + 1) (dst[p := src ! p]) @ drop (p + 1) (take n src))) ?st1
       = poke acts (IntArr (take (p + 1) (dst[p := src ! p]) @ drop (p + 1) (take n src))) st"
      by (rule poke_poke)
    moreover have "take (p + 1) (dst[p := src ! p]) @ drop (p + 1) (take n src) = take p dst @ drop p (take n src)"
      using True 1(5,6)
      by (simp add: take_Suc_conv_app_nth Cons_nth_drop_Suc [symmetric])
    ultimately show ?thesis
      using True 1(2-7) by (subst copy_actions.simps) simp
  qed
qed

lemma construct_throw:
  "ctor_throws W s = Some e \<Longrightarrow> construct W s b st = (Throw e, st\<lparr>allocs := Suc (allocs st)\<rparr>)"
  by (simp add: construct_def)

lemma construct_ok:
  "ctor_throws W s = None \<Longrightarrow>
   construct W s b st =
     (Ok (brk st), st\<lparr>allocs := Suc (allocs st), mem := (mem st)(brk st \<mapsto> (by_new, b)),
                     brk := Suc (brk st)\<rparr>)"
  by (simp add: construct_def blk_alloc_def)

lemma leave_scope_ok:
  "r \<noteq> Fault \<Longrightarrow> mem s a = Some (by_new, b) \<Longrightarrow>
   leave_scope a (r, s) = (r, s\<lparr>mem := (mem s)(a := None)\<rparr>)"
  by (cases r) (simp_all add: leave_scope_def release_def origin_of_def)

lemma memcpy_ok:
  "mem st dst = Some (og, DblArr old) \<Longrightarrow> mem st src = Some (og', DblArr xs) \<Longrightarrow> dst \<noteq> src \<Longrightarrow>
   n \<le> length xs \<Longrightarrow> off + n \<le> length old \<Longrightarrow>
   memcpy dst off src n st =
     (Ok (), st\<lparr>mem := (mem st)(dst \<mapsto> (og, DblArr (take off old @ take n xs @ drop (off + n) old)))\<rparr>)"
  by (simp add: memcpy_def dbls_of_def poke_def)

lemma new_vector_throw:
  "ctor_throws W s = Some e \<Longrightarrow> new_vector W s n st = (Throw e, bump 1 0 st)"
  by (simp add: new_vector_def construct_throw bump_def)

lemma new_cvector_throw:
  "ctor_throws W s = Some e \<Longrightarrow> new_cvector W s m st = (Throw e, bump 1 0 st)"
  by (simp add: new_cvector_def construct_throw bump_def)

lemma new_vector_ok:
  "ctor_throws W s = None \<Longrightarrow>
   new_vector W s n st =
     (Ok (brk st), st\<lparr>mem := (mem st)(brk st \<mapsto> (by_new, IntArr (replicate n 0))),
                     brk := Suc (brk st), allocs := Suc (allocs st)\<rparr>)"
  by (simp add: new_vector_def construct_ok)

lemma new_cvector_ok:
  "ctor_throws W s = None \<Longrightarrow>
   new_cvector W s m st =
     (Ok (brk st),
      st\<lparr>mem := (mem st)(brk st \<mapsto> (by_new, DblArr (map (uninit W (brk st)) [0..<nat (sint m)]))),
         brk := Suc (brk st), allocs := Suc (allocs st)\<rparr>)"
  by (simp add: new_cvector_def construct_ok)

lemma new_nfgame_throw:
  "ctor_throws W Nfgame = Some e \<Longrightarrow> mem st acts = Some (og, IntArr a) \<Longrightarrow>
   mem st payvec = Some (og', DblArr p) \<Longrightarrow>
   new_nfgame W n acts payvec st = (Throw e, bump 1 0 st)"
  by (simp add: new_nfgame_def construct_throw bump_def ints_of_def dbls_of_def)

lemma new_nfgame_ok:
  "ctor_throws W Nfgame = None \<Longrightarrow> mem st acts = Some (og, IntArr a) \<Longrightarrow>
   mem st payvec = Some (og', DblArr p) \<Longrightarrow>
   new_nfgame W n acts payvec st =
     (Ok (brk st), st\<lparr>mem := (mem st)(brk st \<mapsto> (by_new, GameObj n a p)),
                     brk := Suc (brk st), allocs := Suc (allocs st)\<rparr>)"
  by (simp add: new_nfgame_def construct_ok ints_of_def dbls_of_def)

lemma leave_scope_throw:
  "mem s a = Some (by_new, b) \<Longrightarrow>
   leave_scope a (Throw e, s) = (Throw e, s\<lparr>mem := (mem s)(a := None)\<rparr>)"
  by (simp add: leave_scope_ok)

lemma prefix_exec:
  fixes st :: "('d, 'x) store_scheme"
    and K :: "addr \<Rightarrow> addr \<Rightarrow> ('d, 'x) store_scheme \<Rightarrow> 'a result \<times> ('d, 'x) store_scheme"
  assumes ok: "store_ok st"
    and sz: "0 < sint (sz_N sz)" "0 < sint (sz_M sz)" "0 < sint (sz_payoff_len sz)"
    and acts: "mem st actions = Some (o1, IntArr src)" "nat (sint (sz_N sz)) \<le> length src"
    and pay: "mem st payoffs = Some (o2, DblArr pay)" "nat (sint (sz_payoff_len sz)) \<le> length pay"
    and g: "mem st g = Some (o3, DblArr gv)" "nat (sint (sz_M sz)) \<le> length gv"
  shows "scoped (new_vector W Acts (elems (sz_N sz))) (\<lambda>acts.
     andthen (copy_actions acts actions (nat (sint (sz_N sz))) 0) (\<lambda>u.
     scoped (new_cvector W Payvec (sz_payoff_len sz)) (\<lambda>payvec.
     andthen (memcpy payvec 0 payoffs (elems (sz_payoff_len sz))) (\<lambda>u.
     scoped (new_nfgame W (sz_N sz) acts payvec) (\<lambda>A.
     scoped (new_cvector W Gvec (sz_M sz)) (\<lambda>gvec.
     andthen (memcpy gvec 0 g (elems (sz_M sz))) (\<lambda>u.
     K A gvec))))))) st =
    (case ctor_throws W Acts of Some e \<Rightarrow> (Throw e, bump 1 0 st) | None \<Rightarrow>
     case ctor_throws W Payvec of Some e \<Rightarrow> (Throw e, bump 2 1 st) | None \<Rightarrow>
     case ctor_throws W Nfgame of Some e \<Rightarrow> (Throw e, bump 3 2 st) | None \<Rightarrow>
     case ctor_throws W Gvec of Some e \<Rightarrow> (Throw e, bump 4 3 st) | None \<Rightarrow>
       leave_scope (brk st) (leave_scope (brk st + 1) (leave_scope (brk st + 2)
         (leave_scope (brk st + 3) (K (brk st + 2) (brk st + 3) (staged sz src pay gv st))))))"
  (is "?prog st = ?rhs")
proof -
  define n where "n = nat (sint (sz_N sz))"
  define L where "L = nat (sint (sz_payoff_len sz))"
  define M where "M = nat (sint (sz_M sz))"
  define b where "b = brk st"
  define b1 where "b1 = Suc b"
  define b2 where "b2 = Suc b1"
  define b3 where "b3 = Suc b2"
  note bs = b1_def b2_def b3_def
  note el = elems_pos [OF sz(1)] elems_pos [OF sz(3)] elems_pos [OF sz(2)]
  have lt: "actions < b" "payoffs < b" "g < b"
    using ok acts pay g by (auto simp: b_def intro: live_below)
  have ne [simp]:
    "actions \<noteq> b" "actions \<noteq> b1" "actions \<noteq> b2" "actions \<noteq> b3"
    "payoffs \<noteq> b" "payoffs \<noteq> b1" "payoffs \<noteq> b2" "payoffs \<noteq> b3"
    "g \<noteq> b" "g \<noteq> b1" "g \<noteq> b2" "g \<noteq> b3"
    "b \<noteq> actions" "b1 \<noteq> actions" "b2 \<noteq> actions" "b3 \<noteq> actions"
    "b \<noteq> payoffs" "b1 \<noteq> payoffs" "b2 \<noteq> payoffs" "b3 \<noteq> payoffs"
    "b \<noteq> g" "b1 \<noteq> g" "b2 \<noteq> g" "b3 \<noteq> g"
    "b \<noteq> b1" "b \<noteq> b2" "b \<noteq> b3" "b1 \<noteq> b" "b1 \<noteq> b2" "b1 \<noteq> b3"
    "b2 \<noteq> b" "b2 \<noteq> b1" "b2 \<noteq> b3" "b3 \<noteq> b" "b3 \<noteq> b1" "b3 \<noteq> b2"
    using lt by (auto simp: bs)
  have fresh [simp]: "mem st b = None" "mem st b1 = None" "mem st b2 = None" "mem st b3 = None"
    using ok by (auto simp: store_ok_def b_def bs)
  define B0 where "B0 = (by_new, IntArr (take n src) :: 'd block)"
  define B1 where "B1 = (by_new, DblArr (take L pay))"
  define B2 where "B2 = (by_new, GameObj (sz_N sz) (take n src) (take L pay))"
  define B3 where "B3 = (by_new, DblArr (take M gv))"
  define s0 where "s0 = st\<lparr>mem := (mem st)(b \<mapsto> (by_new, IntArr (replicate n 0))), brk := b1, allocs := allocs st + 1\<rparr>"
  define s1 where "s1 = st\<lparr>mem := (mem st)(b \<mapsto> B0), brk := b1, allocs := allocs st + 1\<rparr>"
  define s2' where "s2' = st\<lparr>mem := (mem st)(b \<mapsto> B0, b1 \<mapsto> (by_new, DblArr (map (uninit W b1) [0..<L]))), brk := b2, allocs := allocs st + 2\<rparr>"
  define s2 where "s2 = st\<lparr>mem := (mem st)(b \<mapsto> B0, b1 \<mapsto> B1), brk := b2, allocs := allocs st + 2\<rparr>"
  define s3 where "s3 = st\<lparr>mem := (mem st)(b \<mapsto> B0, b1 \<mapsto> B1, b2 \<mapsto> B2), brk := b3, allocs := allocs st + 3\<rparr>"
  define s4' where "s4' = st\<lparr>mem := (mem st)(b \<mapsto> B0, b1 \<mapsto> B1, b2 \<mapsto> B2, b3 \<mapsto> (by_new, DblArr (map (uninit W b3) [0..<M]))), brk := Suc b3, allocs := allocs st + 4\<rparr>"
  define s4 where "s4 = st\<lparr>mem := (mem st)(b \<mapsto> B0, b1 \<mapsto> B1, b2 \<mapsto> B2, b3 \<mapsto> B3), brk := Suc b3, allocs := allocs st + 4\<rparr>"
  have s4_eq: "s4 = staged sz src pay gv st"
    unfolding s4_def staged_def B0_def B1_def B2_def B3_def
    by (rule store.equality) (simp_all add: n_def L_def M_def b_def bs eval_nat_numeral)
  have addr: "brk st + 1 = b1" "brk st + 2 = b2" "brk st + 3 = b3" "brk st = b"
    "Suc b = b1" "Suc b1 = b2" "Suc b2 = b3" "b + 1 = b1" "b + 2 = b2" "b + 3 = b3"
    "Suc (Suc b) = b2" "Suc (Suc (Suc b)) = b3" "Suc (Suc b1) = b3"
    by (simp_all add: b_def bs eval_nat_numeral)
  have c0: "copy_actions b actions n 0 s0 = (Ok (), s1)"
  proof -
    have "copy_actions b actions n 0 s0 =
        (Ok (), poke b (IntArr (take 0 (replicate n 0) @ drop 0 (take n src))) s0)"
      using acts by (intro copy_actions_closed) (simp_all add: s0_def ints_of_def n_def)
    also have "poke b (IntArr (take 0 (replicate n 0) @ drop 0 (take n src))) s0 = s1"
      unfolding s0_def s1_def B0_def poke_def by (rule store.equality) simp_all
    finally show ?thesis .
  qed
  have c1: "memcpy b1 0 payoffs L s2' = (Ok (), s2)"
  proof -
    have "memcpy b1 0 payoffs L s2' = (Ok (), s2'\<lparr>mem := (mem s2')(b1 \<mapsto> (by_new,
        DblArr (take 0 (map (uninit W b1) [0..<L]) @ take L pay @ drop (0 + L) (map (uninit W b1) [0..<L]))))\<rparr>)"
      using pay by (intro memcpy_ok [where og' = o2]) (simp_all add: s2'_def L_def)
    also have "s2'\<lparr>mem := (mem s2')(b1 \<mapsto> (by_new,
        DblArr (take 0 (map (uninit W b1) [0..<L]) @ take L pay @ drop (0 + L) (map (uninit W b1) [0..<L]))))\<rparr> = s2"
      unfolding s2'_def s2_def B1_def by (rule store.equality) simp_all
    finally show ?thesis .
  qed
  have c2: "memcpy b3 0 g M s4' = (Ok (), s4)"
  proof -
    have "memcpy b3 0 g M s4' = (Ok (), s4'\<lparr>mem := (mem s4')(b3 \<mapsto> (by_new,
        DblArr (take 0 (map (uninit W b3) [0..<M]) @ take M gv @ drop (0 + M) (map (uninit W b3) [0..<M]))))\<rparr>)"
      using g by (intro memcpy_ok [where og' = o3]) (simp_all add: s4'_def M_def)
    also have "s4'\<lparr>mem := (mem s4')(b3 \<mapsto> (by_new,
        DblArr (take 0 (map (uninit W b3) [0..<M]) @ take M gv @ drop (0 + M) (map (uninit W b3) [0..<M]))))\<rparr> = s4"
      unfolding s4'_def s4_def B3_def by (rule store.equality) simp_all
    finally show ?thesis .
  qed
  have v0: "ctor_throws W Acts = None \<Longrightarrow> new_vector W Acts n st = (Ok b, s0)"
    unfolding s0_def by (simp add: new_vector_ok b_def bs) 
  have v1: "ctor_throws W Payvec = None \<Longrightarrow> new_cvector W Payvec (sz_payoff_len sz) s1 = (Ok b1, s2')"
    unfolding s1_def s2'_def by (simp add: new_cvector_ok L_def bs)
  have v2: "ctor_throws W Nfgame = None \<Longrightarrow> new_nfgame W (sz_N sz) b b1 s2 = (Ok b2, s3)"
    unfolding s2_def s3_def B2_def
    by (subst new_nfgame_ok [where a = "take n src" and p = "take L pay"])
      (simp_all add: B0_def B1_def bs)
  have v3: "ctor_throws W Gvec = None \<Longrightarrow> new_cvector W Gvec (sz_M sz) s3 = (Ok b3, s4')"
    unfolding s3_def s4'_def by (simp add: new_cvector_ok M_def bs)
  note fold = n_def [symmetric] L_def [symmetric] M_def [symmetric]
  have l0: "\<And>e. leave_scope b (Throw e, bump 1 0 s1) = (Throw e, bump 2 1 st)"
    unfolding s1_def bump_def
    by (subst leave_scope_throw [where b = "snd B0"])
      (auto simp: B0_def fun_upd_idem addr intro!: store.equality)
  have l1: "\<And>e. leave_scope b (leave_scope b1 (Throw e, bump 1 0 s2)) = (Throw e, bump 3 2 st)"
    unfolding s2_def bump_def
    apply (subst leave_scope_throw [where b = "snd B1"])
     apply (simp add: B1_def)
    apply (subst leave_scope_throw [where b = "snd B0"])
     apply (simp add: B0_def)
    apply (auto simp: fun_upd_idem addr intro!: store.equality)
    done
  have l2: "\<And>e. leave_scope b (leave_scope b1 (leave_scope b2 (Throw e, bump 1 0 s3))) = (Throw e, bump 4 3 st)"
    unfolding s3_def bump_def
    apply (subst leave_scope_throw [where b = "snd B2"])
     apply (simp add: B2_def)
    apply (subst leave_scope_throw [where b = "snd B1"])
     apply (simp add: B1_def)
    apply (subst leave_scope_throw [where b = "snd B0"])
     apply (simp add: B0_def)
    apply (auto simp: fun_upd_idem addr intro!: store.equality)
    done
  show ?thesis
  proof (cases "ctor_throws W Acts")
    case (Some e)
    then show ?thesis by (simp add: scoped_def new_vector_throw)
  next
    case a: None
    show ?thesis
    proof (cases "ctor_throws W Payvec")
      case (Some e)
      then show ?thesis
        using a by (simp add: scoped_def andthen_def el fold v0 c0 new_cvector_throw l0 [simplified])
    next
      case p: None
      show ?thesis
      proof (cases "ctor_throws W Nfgame")
        case (Some e)
        have "new_nfgame W (sz_N sz) b b1 s2 = (Throw e, bump 1 0 s2)"
          using Some by (rule new_nfgame_throw [where a = "take n src" and p = "take L pay"])
            (simp_all add: s2_def B0_def B1_def)
        then show ?thesis
          using a p Some by (simp add: scoped_def andthen_def el fold v0 c0 v1 c1 l1 [simplified])
      next
        case f: None
        show ?thesis
        proof (cases "ctor_throws W Gvec")
          case (Some e)
          then show ?thesis
            using a p f
            by (simp add: scoped_def andthen_def el fold v0 c0 v1 c1 v2 new_cvector_throw l2 [simplified])
        next
          case None
          then show ?thesis
            using a p f
            by (simp add: scoped_def andthen_def el fold v0 c0 v1 c1 v2 v3 c2 addr s4_eq)
        qed
      qed
    qed
  qed
qed

subsection \<open>Execution of the body of \<^verbatim>\<open>ipa\<close>\<close>

lemma call_IPA_throws:
  "mem st A = Some (og0, GameObj n a p) \<Longrightarrow> mem st gvec = Some (og1, DblArr gv) \<Longrightarrow>
   mem st zhvec = Some (og2, DblArr zv) \<Longrightarrow> mem st ansvec = Some (og3, DblArr av) \<Longrightarrow>
   IPA W (n, a, p) gv zv alpha fuzz av = IPA_throws e \<Longrightarrow>
   call_IPA W A gvec zhvec alpha fuzz ansvec st = (Throw e, st\<lparr>solver_calls := Suc (solver_calls st)\<rparr>)"
  by (simp add: call_IPA_def game_of_def dbls_of_def)

lemma call_IPA_returns:
  "mem st A = Some (og0, GameObj n a p) \<Longrightarrow> mem st gvec = Some (og1, DblArr gv) \<Longrightarrow>
   mem st zhvec = Some (og2, DblArr zv) \<Longrightarrow> mem st ansvec = Some (og3, DblArr av) \<Longrightarrow>
   gvec \<noteq> zhvec \<Longrightarrow> gvec \<noteq> ansvec \<Longrightarrow> zhvec \<noteq> ansvec \<Longrightarrow>
   IPA W (n, a, p) gv zv alpha fuzz av = IPA_returns r gv' zv' av' \<Longrightarrow>
   call_IPA W A gvec zhvec alpha fuzz ansvec st =
     (Ok r, st\<lparr>mem := (mem st)(gvec \<mapsto> (og1, DblArr gv'), zhvec \<mapsto> (og2, DblArr zv'),
                              ansvec \<mapsto> (og3, DblArr av')),
               solver_calls := Suc (solver_calls st)\<rparr>)"
  by (simp add: call_IPA_def game_of_def dbls_of_def poke_def)

lemma leave_scopes:
  "r \<noteq> Fault \<Longrightarrow> \<forall>a \<in> set as. \<exists>blk. mem s a = Some (by_new, blk) \<Longrightarrow> distinct as \<Longrightarrow>
   foldr leave_scope as (r, s) = (r, s\<lparr>mem := (\<lambda>x. if x \<in> set as then None else mem s x)\<rparr>)"
proof (induction as)
  case Nil
  then show ?case by simp
next
  case (Cons a as)
  let ?s' = "s\<lparr>mem := (\<lambda>x. if x \<in> set as then None else mem s x)\<rparr>"
  from Cons.prems obtain blk where blk: "mem s a = Some (by_new, blk)" by auto
  have "foldr leave_scope (a # as) (r, s) = leave_scope a (r, ?s')"
    using Cons by simp
  also have "\<dots> = (r, ?s'\<lparr>mem := (mem ?s')(a := None)\<rparr>)"
    using Cons.prems blk by (intro leave_scope_ok [where b = blk]) auto
  also have "?s'\<lparr>mem := (mem ?s')(a := None)\<rparr> =
      s\<lparr>mem := (\<lambda>x. if x \<in> set (a # as) then None else mem s x)\<rparr>"
    by (auto simp: fun_eq_iff)
  finally show ?case .
qed

lemma ipa_try_exec:
  fixes st :: "('d, 'x) store_scheme" and W :: "'d world" and alpha fuzz :: 'd
  assumes ok: "store_ok st"
    and sz: "0 < sint (sz_N sz)" "0 < sint (sz_M sz)" "0 < sint (sz_payoff_len sz)"
    and acts: "mem st actions = Some (o1, IntArr src)" "nat (sint (sz_N sz)) \<le> length src"
    and pay: "mem st payoffs = Some (o2, DblArr pay)" "nat (sint (sz_payoff_len sz)) \<le> length pay"
    and g: "mem st g = Some (o3, DblArr gv)" "nat (sint (sz_M sz)) \<le> length gv"
    and zh: "mem st zh = Some (o4, DblArr zv)" "nat (sint (sz_M sz)) \<le> length zv"
    and ans: "mem st ans = Some (o5, DblArr av)" "nat (sint (sz_M sz)) \<le> length av"
  defines "out \<equiv> IPA W (sz_N sz, take (nat (sint (sz_N sz))) src, take (nat (sint (sz_payoff_len sz))) pay)
            (take (nat (sint (sz_M sz))) gv) (take (nat (sint (sz_M sz))) zv) alpha fuzz
            (map (uninit W (brk st + 5)) [0..<nat (sint (sz_M sz))])"
  shows "first_throw W [Acts, Payvec, Nfgame, Gvec, Zhvec, Ansvec] = Some e \<Longrightarrow>
           \<exists>k j. ipa_try W sz actions payoffs g zh alpha fuzz ans st = (Throw e, bump k j st)"
    and "first_throw W [Acts, Payvec, Nfgame, Gvec, Zhvec, Ansvec] = None \<Longrightarrow> out = IPA_throws e \<Longrightarrow>
           ipa_try W sz actions payoffs g zh alpha fuzz ans st =
             (Throw e, (bump 6 6 st)\<lparr>solver_calls := Suc (solver_calls st)\<rparr>)"
    and "first_throw W [Acts, Payvec, Nfgame, Gvec, Zhvec, Ansvec] = None \<Longrightarrow>
         out = IPA_returns r gv' zv' av' \<Longrightarrow>
         nat (sint (sz_M sz)) \<le> length zv' \<Longrightarrow> nat (sint (sz_M sz)) \<le> length av' \<Longrightarrow>
           ipa_try W sz actions payoffs g zh alpha fuzz ans st =
             (Ok r, (bump 6 6 st)\<lparr>solver_calls := Suc (solver_calls st),
                 mem := (mem st)
                   (zh \<mapsto> (o4, DblArr (take (nat (sint (sz_M sz))) zv' @ drop (nat (sint (sz_M sz))) zv)),
                    ans \<mapsto> (o5, DblArr (take (nat (sint (sz_M sz))) av' @ drop (nat (sint (sz_M sz))) av)))\<rparr>)"
proof -
  define n where "n = nat (sint (sz_N sz))"
  define L where "L = nat (sint (sz_payoff_len sz))"
  define M where "M = nat (sint (sz_M sz))"
  define b where "b = brk st"
  define b1 where "b1 = Suc b"
  define b2 where "b2 = Suc b1"
  define b3 where "b3 = Suc b2"
  define b4 where "b4 = Suc b3"
  define b5 where "b5 = Suc b4"
  note bs = b1_def b2_def b3_def b4_def b5_def
  note el = elems_pos [OF sz(2)]
  note fold = n_def [symmetric] L_def [symmetric] M_def [symmetric]
  have lt: "zh < b" "ans < b"
    using ok zh ans by (auto simp: b_def intro: live_below)
  have ne [simp]:
    "zh \<noteq> b" "zh \<noteq> b1" "zh \<noteq> b2" "zh \<noteq> b3" "zh \<noteq> b4" "zh \<noteq> b5"
    "ans \<noteq> b" "ans \<noteq> b1" "ans \<noteq> b2" "ans \<noteq> b3" "ans \<noteq> b4" "ans \<noteq> b5"
    "b \<noteq> zh" "b1 \<noteq> zh" "b2 \<noteq> zh" "b3 \<noteq> zh" "b4 \<noteq> zh" "b5 \<noteq> zh"
    "b \<noteq> ans" "b1 \<noteq> ans" "b2 \<noteq> ans" "b3 \<noteq> ans" "b4 \<noteq> ans" "b5 \<noteq> ans"
    using lt by (auto simp: bs)
  have nb [simp]:
    "b \<noteq> b1" "b \<noteq> b2" "b \<noteq> b3" "b \<noteq> b4" "b \<noteq> b5"
    "b1 \<noteq> b" "b1 \<noteq> b2" "b1 \<noteq> b3" "b1 \<noteq> b4" "b1 \<noteq> b5"
    "b2 \<noteq> b" "b2 \<noteq> b1" "b2 \<noteq> b3" "b2 \<noteq> b4" "b2 \<noteq> b5"
    "b3 \<noteq> b" "b3 \<noteq> b1" "b3 \<noteq> b2" "b3 \<noteq> b4" "b3 \<noteq> b5"
    "b4 \<noteq> b" "b4 \<noteq> b1" "b4 \<noteq> b2" "b4 \<noteq> b3" "b4 \<noteq> b5"
    "b5 \<noteq> b" "b5 \<noteq> b1" "b5 \<noteq> b2" "b5 \<noteq> b3" "b5 \<noteq> b4"
    by (auto simp: bs)
  have fresh [simp]: "mem st b = None" "mem st b1 = None" "mem st b2 = None" "mem st b3 = None"
    "mem st b4 = None" "mem st b5 = None"
    using ok by (auto simp: store_ok_def b_def bs)
  have addr: "brk st + 1 = b1" "brk st + 2 = b2" "brk st + 3 = b3" "brk st + 4 = b4"
    "brk st + 5 = b5" "brk st = b" "brk st + 6 = Suc b5"
    "b + 1 = b1" "b + 2 = b2" "b + 3 = b3" "b + 4 = b4" "b + 5 = b5" "b + 6 = Suc b5"
    "Suc b = b1" "Suc b1 = b2" "Suc b2 = b3" "Suc b3 = b4" "Suc b4 = b5"
    by (simp_all add: b_def bs eval_nat_numeral)
  define B0 where "B0 = (by_new, IntArr (take n src) :: 'd block)"
  define B1 where "B1 = (by_new, DblArr (take L pay))"
  define B2 where "B2 = (by_new, GameObj (sz_N sz) (take n src) (take L pay))"
  define B3 where "B3 = (by_new, DblArr (take M gv))"
  define B4 where "B4 = (by_new, DblArr (take M zv))"
  define U5 where "U5 = map (uninit W b5) [0..<M]"
  define m4 where "m4 = (mem st)(b \<mapsto> B0, b1 \<mapsto> B1, b2 \<mapsto> B2, b3 \<mapsto> B3)"
  define s4 where "s4 = st\<lparr>mem := m4, brk := b4, allocs := allocs st + 4\<rparr>"
  have s4_eq: "staged sz src pay gv st = s4"
    unfolding s4_def staged_def B0_def B1_def B2_def B3_def m4_def
    by (rule store.equality) (simp_all add: n_def L_def M_def b_def bs eval_nat_numeral)
  define s5' where "s5' = st\<lparr>mem := m4(b4 \<mapsto> (by_new, DblArr (map (uninit W b4) [0..<M]))), brk := b5, allocs := allocs st + 5\<rparr>"
  define s5 where "s5 = st\<lparr>mem := m4(b4 \<mapsto> B4), brk := b5, allocs := allocs st + 5\<rparr>"
  define s6 where "s6 = st\<lparr>mem := m4(b4 \<mapsto> B4, b5 \<mapsto> (by_new, DblArr U5)), brk := Suc b5, allocs := allocs st + 6\<rparr>"
  have m4_old [simp]: "m4 zh = mem st zh" "m4 ans = mem st ans" "m4 b4 = None" "m4 b5 = None"
    "m4 b2 = Some B2" "m4 b3 = Some B3" "m4 b1 = Some B1" "m4 b = Some B0"
    by (simp_all add: m4_def)
  have v4: "ctor_throws W Zhvec = None \<Longrightarrow> new_cvector W Zhvec (sz_M sz) s4 = (Ok b4, s5')"
    unfolding s4_def s5'_def by (simp add: new_cvector_ok M_def bs)
  have c4: "memcpy b4 0 zh M s5' = (Ok (), s5)"
  proof -
    have "memcpy b4 0 zh M s5' = (Ok (), s5'\<lparr>mem := (mem s5')(b4 \<mapsto> (by_new,
        DblArr (take 0 (map (uninit W b4) [0..<M]) @ take M zv @ drop (0 + M) (map (uninit W b4) [0..<M]))))\<rparr>)"
      using zh by (intro memcpy_ok [where og' = o4]) (simp_all add: s5'_def M_def)
    also have "s5'\<lparr>mem := (mem s5')(b4 \<mapsto> (by_new,
        DblArr (take 0 (map (uninit W b4) [0..<M]) @ take M zv @ drop (0 + M) (map (uninit W b4) [0..<M]))))\<rparr> = s5"
      unfolding s5'_def s5_def B4_def by (rule store.equality) simp_all
    finally show ?thesis .
  qed
  have v5: "ctor_throws W Ansvec = None \<Longrightarrow> new_cvector W Ansvec (sz_M sz) s5 = (Ok b5, s6)"
    unfolding s5_def s6_def U5_def by (simp add: new_cvector_ok M_def bs)
  have out_eq: "out = IPA W (sz_N sz, take n src, take L pay) (take M gv) (take M zv) alpha fuzz U5"
    by (simp add: out_def U5_def fold addr)
  have i6t: "out = IPA_throws e \<Longrightarrow>
      call_IPA W b2 b3 b4 alpha fuzz b5 s6 = (Throw e, s6\<lparr>solver_calls := Suc (solver_calls s6)\<rparr>)" for e
    unfolding out_eq
    by (rule call_IPA_throws [where n = "sz_N sz" and a = "take n src" and p = "take L pay"
          and gv = "take M gv" and zv = "take M zv" and av = U5])
      (simp_all add: s6_def B2_def B3_def B4_def)
  define K where "K = (\<lambda>A gvec.
      scoped (new_cvector W Zhvec (sz_M sz)) (\<lambda>zhvec.
      andthen (memcpy zhvec 0 zh (elems (sz_M sz))) (\<lambda>u.
      scoped (new_cvector W Ansvec (sz_M sz)) (\<lambda>ansvec.
      andthen (call_IPA W A gvec zhvec alpha fuzz ansvec) (\<lambda>ret.
      andthen (memcpy zh 0 zhvec (elems (sz_M sz))) (\<lambda>u.
      andthen (memcpy ans 0 ansvec (elems (sz_M sz))) (\<lambda>u.
      yield ret)))))) :: ('d, 'x) store_scheme \<Rightarrow> c_int result \<times> ('d, 'x) store_scheme)"
  have pre: "ipa_try W sz actions payoffs g zh alpha fuzz ans st =
    (case ctor_throws W Acts of Some e \<Rightarrow> (Throw e, bump 1 0 st) | None \<Rightarrow>
     case ctor_throws W Payvec of Some e \<Rightarrow> (Throw e, bump 2 1 st) | None \<Rightarrow>
     case ctor_throws W Nfgame of Some e \<Rightarrow> (Throw e, bump 3 2 st) | None \<Rightarrow>
     case ctor_throws W Gvec of Some e \<Rightarrow> (Throw e, bump 4 3 st) | None \<Rightarrow>
       foldr leave_scope [b, b1, b2, b3] (K b2 b3 s4))"
    unfolding ipa_try_def K_def
    by (subst prefix_exec [OF ok sz acts pay g]) (simp add: addr s4_eq cong: option.case_cong)
  have unwind: "foldr leave_scope as (r, s) = (r, t)"
    if "r \<noteq> Fault" "distinct as"
      "\<forall>a \<in> set as. \<exists>blk. mem s a = Some (by_new, blk)"
      "\<forall>x. mem t x = (if x \<in> set as then None else mem s x)"
      "brk s = brk t" "allocs s = allocs t" "solver_calls s = solver_calls t"
      "store.more s = store.more t"
    for as r s and t :: "('d, 'x) store_scheme"
  proof -
    have "foldr leave_scope as (r, s) =
        (r, s\<lparr>mem := (\<lambda>x. if x \<in> set as then None else mem s x)\<rparr>)"
      using that by (intro leave_scopes) auto
    also have "s\<lparr>mem := (\<lambda>x. if x \<in> set as then None else mem s x)\<rparr> = t"
      by (rule store.equality) (use that in \<open>simp_all add: fun_eq_iff\<close>)
    finally show ?thesis .
  qed
  show "first_throw W [Acts, Payvec, Nfgame, Gvec, Zhvec, Ansvec] = Some e \<Longrightarrow>
           \<exists>k j. ipa_try W sz actions payoffs g zh alpha fuzz ans st = (Throw e, bump k j st)"
  proof -
    assume ft: "first_throw W [Acts, Payvec, Nfgame, Gvec, Zhvec, Ansvec] = Some e"
    show ?thesis
    proof (cases "first_throw W [Acts, Payvec, Nfgame, Gvec]")
      case (Some e')
      with ft have "e' = e" by (simp split: option.splits)
      with Some show ?thesis
        unfolding pre by (auto split: option.splits)
    next
      case None
      then have four: "ctor_throws W Acts = None" "ctor_throws W Payvec = None"
        "ctor_throws W Nfgame = None" "ctor_throws W Gvec = None"
        by (simp_all split: option.splits)
      show ?thesis
      proof (cases "ctor_throws W Zhvec")
        case (Some e')
        with ft four have [simp]: "e' = e" by simp
        have "K b2 b3 s4 = (Throw e, bump 1 0 s4)"
          unfolding K_def using Some by (simp add: scoped_def new_cvector_throw)
        moreover have "foldr leave_scope [b, b1, b2, b3] (Throw e, bump 1 0 s4) = (Throw e, bump 5 4 st)"
          by (rule unwind) (auto simp: s4_def bump_def m4_def B0_def B1_def B2_def B3_def addr)
        ultimately show ?thesis unfolding pre using four by auto
      next
        case z: None
        show ?thesis
        proof (cases "ctor_throws W Ansvec")
          case (Some e')
          with ft four z have [simp]: "e' = e" by simp
          have "K b2 b3 s4 = leave_scope b4 (Throw e, bump 1 0 s5)"
            unfolding K_def using Some z
            by (simp add: scoped_def andthen_def el fold v4 c4 new_cvector_throw)
          moreover have "foldr leave_scope [b, b1, b2, b3, b4] (Throw e, bump 1 0 s5) = (Throw e, bump 6 5 st)"
            by (rule unwind) (auto simp: s5_def bump_def m4_def B0_def B1_def B2_def B3_def B4_def addr)
          ultimately show ?thesis unfolding pre using four by auto
        next
          case None
          with ft four z show ?thesis by simp
        qed
      qed
    qed
  qed
  have six: "ctor_throws W Acts = None \<and> ctor_throws W Payvec = None \<and>
      ctor_throws W Nfgame = None \<and> ctor_throws W Gvec = None \<and>
      ctor_throws W Zhvec = None \<and> ctor_throws W Ansvec = None"
    if "first_throw W [Acts, Payvec, Nfgame, Gvec, Zhvec, Ansvec] = None"
    using that by (simp split: option.splits)
  show "first_throw W [Acts, Payvec, Nfgame, Gvec, Zhvec, Ansvec] = None \<Longrightarrow> out = IPA_throws e \<Longrightarrow>
           ipa_try W sz actions payoffs g zh alpha fuzz ans st =
             (Throw e, (bump 6 6 st)\<lparr>solver_calls := Suc (solver_calls st)\<rparr>)"
  proof -
    assume ft: "first_throw W [Acts, Payvec, Nfgame, Gvec, Zhvec, Ansvec] = None"
      and o: "out = IPA_throws e"
    note six [OF ft]
    then have "K b2 b3 s4 = leave_scope b4 (leave_scope b5 (Throw e, s6\<lparr>solver_calls := Suc (solver_calls s6)\<rparr>))"
      unfolding K_def
      by (simp add: scoped_def andthen_def el fold v4 c4 v5 i6t [OF o])
    moreover have "foldr leave_scope [b, b1, b2, b3, b4, b5]
        (Throw e, s6\<lparr>solver_calls := Suc (solver_calls s6)\<rparr>) =
        (Throw e, (bump 6 6 st)\<lparr>solver_calls := Suc (solver_calls st)\<rparr>)"
      by (rule unwind) (auto simp: s6_def bump_def m4_def B0_def B1_def B2_def B3_def B4_def addr)
    ultimately show ?thesis unfolding pre using \<open>_ \<and> _\<close> by simp
  qed
  show "first_throw W [Acts, Payvec, Nfgame, Gvec, Zhvec, Ansvec] = None \<Longrightarrow>
         out = IPA_returns r gv' zv' av' \<Longrightarrow>
         nat (sint (sz_M sz)) \<le> length zv' \<Longrightarrow> nat (sint (sz_M sz)) \<le> length av' \<Longrightarrow>
           ipa_try W sz actions payoffs g zh alpha fuzz ans st =
             (Ok r, (bump 6 6 st)\<lparr>solver_calls := Suc (solver_calls st),
                 mem := (mem st)
                   (zh \<mapsto> (o4, DblArr (take (nat (sint (sz_M sz))) zv' @ drop (nat (sint (sz_M sz))) zv)),
                    ans \<mapsto> (o5, DblArr (take (nat (sint (sz_M sz))) av' @ drop (nat (sint (sz_M sz))) av)))\<rparr>)"
  proof -
    assume ft: "first_throw W [Acts, Payvec, Nfgame, Gvec, Zhvec, Ansvec] = None"
      and o: "out = IPA_returns r gv' zv' av'"
      and lz: "nat (sint (sz_M sz)) \<le> length zv'" and la: "nat (sint (sz_M sz)) \<le> length av'"
    note six [OF ft]
    define m7 where "m7 = m4(b4 \<mapsto> B4, b5 \<mapsto> (by_new, DblArr U5), b3 \<mapsto> (by_new, DblArr gv'),
        b4 \<mapsto> (by_new, DblArr zv'), b5 \<mapsto> (by_new, DblArr av'))"
    define s7 where "s7 = st\<lparr>mem := m7, brk := Suc b5, allocs := allocs st + 6,
        solver_calls := Suc (solver_calls st)\<rparr>"
    define Z where "Z = (o4, DblArr (take M zv' @ drop M zv))"
    define A where "A = (o5, DblArr (take M av' @ drop M av))"
    define s8 where "s8 = st\<lparr>mem := m7(zh \<mapsto> Z), brk := Suc b5, allocs := allocs st + 6,
        solver_calls := Suc (solver_calls st)\<rparr>"
    define s9 where "s9 = st\<lparr>mem := m7(zh \<mapsto> Z, ans \<mapsto> A), brk := Suc b5, allocs := allocs st + 6,
        solver_calls := Suc (solver_calls st)\<rparr>"
    have m7_old [simp]: "m7 zh = mem st zh" "m7 ans = mem st ans"
      "m7 b4 = Some (by_new, DblArr zv')" "m7 b5 = Some (by_new, DblArr av')"
      by (simp_all add: m7_def)
    have i6: "call_IPA W b2 b3 b4 alpha fuzz b5 s6 = (Ok r, s7)"
    proof -
      have "call_IPA W b2 b3 b4 alpha fuzz b5 s6 =
        (Ok r, s6\<lparr>mem := (mem s6)(b3 \<mapsto> (by_new, DblArr gv'), b4 \<mapsto> (by_new, DblArr zv'),
                              b5 \<mapsto> (by_new, DblArr av')),
               solver_calls := Suc (solver_calls s6)\<rparr>)"
        using o unfolding out_eq
        by (intro call_IPA_returns [where n = "sz_N sz" and a = "take n src" and p = "take L pay"
          and gv = "take M gv" and zv = "take M zv" and av = U5])
          (simp_all add: s6_def B2_def B3_def B4_def)
      also have "s6\<lparr>mem := (mem s6)(b3 \<mapsto> (by_new, DblArr gv'), b4 \<mapsto> (by_new, DblArr zv'),
                              b5 \<mapsto> (by_new, DblArr av')),
               solver_calls := Suc (solver_calls s6)\<rparr> = s7"
        unfolding s6_def s7_def m7_def by (rule store.equality) simp_all
      finally show ?thesis .
    qed
    have c7: "memcpy zh 0 b4 M s7 = (Ok (), s8)"
    proof -
      have "memcpy zh 0 b4 M s7 = (Ok (), s7\<lparr>mem := (mem s7)(zh \<mapsto> (o4,
          DblArr (take 0 zv @ take M zv' @ drop (0 + M) zv)))\<rparr>)"
        using zh lz by (intro memcpy_ok [where og' = by_new]) (simp_all add: s7_def M_def)
      also have "s7\<lparr>mem := (mem s7)(zh \<mapsto> (o4,
          DblArr (take 0 zv @ take M zv' @ drop (0 + M) zv)))\<rparr> = s8"
        unfolding s7_def s8_def Z_def by (rule store.equality) simp_all
      finally show ?thesis .
    qed
    define old where "old = (if ans = zh then take M zv' @ drop M zv else av)"
    have old: "mem s8 ans = Some (o5, DblArr old)" "M \<le> length old" "drop M old = drop M av"
      using zh ans lz by (auto simp: s8_def old_def Z_def M_def)
    have c8: "memcpy ans 0 b5 M s8 = (Ok (), s9)"
    proof -
      have "memcpy ans 0 b5 M s8 = (Ok (), s8\<lparr>mem := (mem s8)(ans \<mapsto> (o5,
          DblArr (take 0 old @ take M av' @ drop (0 + M) old)))\<rparr>)"
        using old la by (intro memcpy_ok [where og' = by_new]) (simp_all add: s8_def M_def)
      also have "s8\<lparr>mem := (mem s8)(ans \<mapsto> (o5,
          DblArr (take 0 old @ take M av' @ drop (0 + M) old)))\<rparr> = s9"
        unfolding s8_def s9_def A_def by (rule store.equality) (simp_all add: old)
      finally show ?thesis .
    qed
    have "K b2 b3 s4 = leave_scope b4 (leave_scope b5 (Ok r, s9))"
      unfolding K_def using \<open>_ \<and> _\<close>
      by (simp add: scoped_def andthen_def el fold v4 c4 v5 i6 c7 c8 yield_def)
    moreover have "foldr leave_scope [b, b1, b2, b3, b4, b5] (Ok r, s9) =
        (Ok r, (bump 6 6 st)\<lparr>solver_calls := Suc (solver_calls st),
                 mem := (mem st)(zh \<mapsto> Z, ans \<mapsto> A)\<rparr>)"
      by (rule unwind) (auto simp: s9_def bump_def m7_def m4_def B0_def B1_def B2_def B3_def B4_def addr)
    ultimately show ?thesis unfolding pre using \<open>_ \<and> _\<close> by (simp add: Z_def A_def M_def)
  qed
qed

subsection \<open>The loops over the result handles\<close>

lemma new_handles_closed:
  "new_handles rows st =
     ([brk st..<brk st + length rows],
      st\<lparr>mem := (\<lambda>x. if brk st \<le> x \<and> x < brk st + length rows
                      then Some (by_new, DblArr (rows ! (x - brk st))) else mem st x),
         brk := brk st + length rows\<rparr>)"
proof (induction rows arbitrary: st)
  case Nil
  have "st\<lparr>mem := (\<lambda>x. if brk st \<le> x \<and> x < brk st + length ([] :: 'a list list)
                      then Some (by_new, DblArr (([] :: 'a list list) ! (x - brk st))) else mem st x),
         brk := brk st + length ([] :: 'a list list)\<rparr> = st"
    by (rule store.equality) (auto simp: fun_eq_iff)
  then show ?case by simp
next
  case (Cons r rows)
  let ?st1 = "st\<lparr>mem := (mem st)(brk st \<mapsto> (by_new, DblArr r)), brk := Suc (brk st)\<rparr>"
  have "new_handles (r # rows) st =
      (case new_handles rows ?st1 of (as, st2) \<Rightarrow> (brk st # as, st2))"
    by (simp add: blk_alloc_def)
  also have "\<dots> = (brk st # [Suc (brk st)..<Suc (brk st) + length rows],
      ?st1\<lparr>mem := (\<lambda>x. if brk ?st1 \<le> x \<and> x < brk ?st1 + length rows
                      then Some (by_new, DblArr (rows ! (x - brk ?st1))) else mem ?st1 x),
         brk := brk ?st1 + length rows\<rparr>)"
    by (simp add: Cons.IH)
  also have "brk st # [Suc (brk st)..<Suc (brk st) + length rows] =
      [brk st..<brk st + length (r # rows)]"
    using upt_conv_Cons [of "brk st" "brk st + length (r # rows)"] by simp
  also have "?st1\<lparr>mem := (\<lambda>x. if brk ?st1 \<le> x \<and> x < brk ?st1 + length rows
                      then Some (by_new, DblArr (rows ! (x - brk ?st1))) else mem ?st1 x),
         brk := brk ?st1 + length rows\<rparr> =
      st\<lparr>mem := (\<lambda>x. if brk st \<le> x \<and> x < brk st + length (r # rows)
                      then Some (by_new, DblArr ((r # rows) ! (x - brk st))) else mem st x),
         brk := brk st + length (r # rows)\<rparr>"
    by (rule store.equality) (auto simp: fun_eq_iff nth_Cons' Suc_diff_le)
  finally show ?case .
qed

lemma delete_rows_closed:
  assumes "ptrs_of st eq = Some hs" "n \<le> length hs" "k \<le> n" "distinct hs" "eq \<notin> set hs"
    "\<forall>h \<in> set (drop k (take n hs)). origin_of st h = Some by_new"
  shows "delete_rows eq n k st =
     (Ok (), st\<lparr>mem := (\<lambda>x. if x \<in> set (drop k (take n hs)) then None else mem st x)\<rparr>)"
  using assms
proof (induction eq n k st rule: delete_rows.induct)
  case (1 eq n k st)
  show ?case
  proof (cases "k < n")
    case False
    with 1(4) have "k = n" by simp
    then show ?thesis by (simp add: delete_rows.simps)
  next
    case True
    with 1(3) have kl: "k < length hs" by simp
    let ?h = "hs ! k"
    let ?st1 = "st\<lparr>mem := (mem st)(?h := None)\<rparr>"
    have dk: "drop k (take n hs) = ?h # drop (k + 1) (take n hs)"
      using True kl by (simp add: Cons_nth_drop_Suc [symmetric])
    have og: "origin_of st ?h = Some by_new"
      using 1(7) dk by simp
    then have rel: "release by_new ?h st = (Ok (), ?st1)"
      by (simp add: release_def)
    have neq: "?h \<noteq> eq" using 1(6) kl by (metis nth_mem)
    have p1: "ptrs_of ?st1 eq = Some hs"
      using 1(2) neq by (simp add: ptrs_of_def)
    have notin: "?h \<notin> set (drop (k + 1) (take n hs))"
    proof -
      have "distinct (drop k (take n hs))" using 1(5) by simp
      then show ?thesis unfolding dk by simp
    qed
    have og1: "\<forall>h \<in> set (drop (k + 1) (take n hs)). origin_of ?st1 h = Some by_new"
      using 1(7) notin by (auto simp: dk origin_of_def)
    have "delete_rows eq n (k + 1) ?st1 =
        (Ok (), ?st1\<lparr>mem := (\<lambda>x. if x \<in> set (drop (k + 1) (take n hs)) then None else mem ?st1 x)\<rparr>)"
      using True 1(3-6) p1 og1
      by (intro "1.IH" [OF True 1(2) kl rel [symmetric] refl]) simp_all
    also have "?st1\<lparr>mem := (\<lambda>x. if x \<in> set (drop (k + 1) (take n hs)) then None else mem ?st1 x)\<rparr>
        = st\<lparr>mem := (\<lambda>x. if x \<in> set (drop k (take n hs)) then None else mem st x)\<rparr>"
      by (rule store.equality) (auto simp: fun_eq_iff dk)
    finally have rest: "delete_rows eq n (k + 1) ?st1 =
        (Ok (), st\<lparr>mem := (\<lambda>x. if x \<in> set (drop k (take n hs)) then None else mem st x)\<rparr>)" .
    have step: "delete_rows eq n k st = delete_rows eq n (k + 1) ?st1"
      using True kl 1(2) rel by (subst delete_rows.simps) simp
    show ?thesis unfolding step by (fact rest)
  qed
qed

lemma pack_rows_closed:
  assumes "ptrs_of st eq = Some hs" "n \<le> length hs" "n \<le> length rows" "k \<le> n"
    "mem st b = Some (og, DblArr old)" "n * m \<le> length old"
    "\<forall>i < n. \<exists>og'. mem st (hs ! i) = Some (og', DblArr (rows ! i)) \<and> m \<le> length (rows ! i)"
    "b \<notin> set hs" "b \<noteq> eq"
  shows "pack_rows b (Some eq) m n k st =
     (Ok (), st\<lparr>mem := (mem st)(b \<mapsto> (og, DblArr (take (k * m) old @
        concat (map (take m) (drop k (take n rows))) @ drop (n * m) old)))\<rparr>)"
  using assms
proof (induction b "Some eq" m n k st arbitrary: old rule: pack_rows.induct)
  case (1 b m n k st)
  show ?case
  proof (cases "k < n")
    case False
    with 1(5) have "k = n" by simp
    moreover have "st\<lparr>mem := (mem st)(b \<mapsto> (og, DblArr old))\<rparr> = st"
      using 1(6) by (intro store.equality) (simp_all add: fun_upd_idem)
    ultimately show ?thesis by (simp add: pack_rows.simps)
  next
    case True
    with 1(3) have kl: "k < length hs" by simp
    from True 1(4) have kr: "k < length rows" by simp
    from 1(8) True obtain og' where
      row: "mem st (hs ! k) = Some (og', DblArr (rows ! k))" "m \<le> length (rows ! k)"
      by blast
    have km: "k * m + m \<le> length old"
    proof -
      have "(k + 1) * m \<le> n * m" using True by (intro mult_le_mono1) simp
      with 1(7) show ?thesis by simp
    qed
    have bne: "b \<noteq> hs ! k" using 1(9) kl by (metis nth_mem)
    define old1 where "old1 = take (k * m) old @ take m (rows ! k) @ drop (k * m + m) old"
    let ?st1 = "st\<lparr>mem := (mem st)(b \<mapsto> (og, DblArr old1))\<rparr>"
    have cp: "memcpy b (k * m) (hs ! k) m st = (Ok (), ?st1)"
      unfolding old1_def using 1(6) row bne km by (intro memcpy_ok)
    have len1: "length old1 = length old"
      using km row(2) by (simp add: old1_def)
    have p1: "ptrs_of ?st1 eq = Some hs" using 1(2,10) by (simp add: ptrs_of_def)
    have rows1: "\<forall>i < n. \<exists>og'. mem ?st1 (hs ! i) = Some (og', DblArr (rows ! i)) \<and> m \<le> length (rows ! i)"
    proof (intro allI impI)
      fix i assume i: "i < n"
      with 1(3) have "hs ! i \<in> set hs" by simp
      with 1(9) have "hs ! i \<noteq> b" by auto
      with 1(8) i show "\<exists>og'. mem ?st1 (hs ! i) = Some (og', DblArr (rows ! i)) \<and> m \<le> length (rows ! i)"
        by simp
    qed
    have "pack_rows b (Some eq) m n (k + 1) ?st1 =
       (Ok (), ?st1\<lparr>mem := (mem ?st1)(b \<mapsto> (og, DblArr (take ((k + 1) * m) old1 @
          concat (map (take m) (drop (k + 1) (take n rows))) @ drop (n * m) old1)))\<rparr>)"
      using True 1(3,4,7,9,10) p1 rows1 len1
      by (intro "1.hyps" [OF True _ kl cp [symmetric] refl]) (simp_all add: 1(2))
    also have "take ((k + 1) * m) old1 = take (k * m) old @ take m (rows ! k)"
      using km row(2) by (simp add: old1_def)
    also have "drop (n * m) old1 = drop (n * m) old"
    proof -
      have "(k + 1) * m \<le> n * m" using True by (intro mult_le_mono1) simp
      then obtain d where d: "n * m = (k * m + m) + d"
        by (metis add.commute le_Suc_ex mult_Suc Suc_eq_plus1)
      have "length (take (k * m) old @ take m (rows ! k)) = k * m + m"
        using km row(2) by simp
      then show ?thesis
        unfolding old1_def d by (simp add: drop_drop [symmetric] add.commute del: drop_drop)
    qed
    also have "(take (k * m) old @ take m (rows ! k)) @
          concat (map (take m) (drop (k + 1) (take n rows))) @ drop (n * m) old =
        take (k * m) old @ concat (map (take m) (drop k (take n rows))) @ drop (n * m) old"
      using True kr by (simp add: Cons_nth_drop_Suc [symmetric])
    also have "?st1\<lparr>mem := (mem ?st1)(b \<mapsto> (og, DblArr (take (k * m) old @
          concat (map (take m) (drop k (take n rows))) @ drop (n * m) old)))\<rparr> =
        st\<lparr>mem := (mem st)(b \<mapsto> (og, DblArr (take (k * m) old @
          concat (map (take m) (drop k (take n rows))) @ drop (n * m) old)))\<rparr>"
      by simp
    finally have rest: "pack_rows b (Some eq) m n (k + 1) ?st1 =
       (Ok (), st\<lparr>mem := (mem st)(b \<mapsto> (og, DblArr (take (k * m) old @
          concat (map (take m) (drop k (take n rows))) @ drop (n * m) old)))\<rparr>)" .
    have step: "pack_rows b (Some eq) m n k st = pack_rows b (Some eq) m n (k + 1) ?st1"
      using True kl 1(2) cp by (subst pack_rows.simps) simp
    show ?thesis unfolding step by (fact rest)
  qed
qed

subsection \<open>The statements of \<^verbatim>\<open>gnm\<close> after the solver call\<close>

lemma write_ptr_ok:
  "mem s a = Some (og, PtrCell p) \<Longrightarrow>
   write_ptr a v s = (Ok (), s\<lparr>mem := (mem s)(a \<mapsto> (og, PtrCell v))\<rparr>)"
  by (simp add: write_ptr_def cell_of_def poke_def)

lemma release_ok:
  "mem s a = Some (og, blk) \<Longrightarrow> release og a s = (Ok (), s\<lparr>mem := (mem s)(a := None)\<rparr>)"
  by (simp add: release_def origin_of_def)

lemma cleanup_eq_null [simp]: "cleanup_eq None k s = (Ok (), s)"
  by (simp add: cleanup_eq_def)

lemma cleanup_eq_closed:
  assumes "mem s arr = Some (by_malloc, PtrArr hs)" "nat (sint k) \<le> length hs" "distinct hs"
    "arr \<notin> set hs" "\<forall>h \<in> set (take (nat (sint k)) hs). origin_of s h = Some by_new"
  shows "cleanup_eq (Some arr) k s =
     (Ok (), s\<lparr>mem := (\<lambda>x. if x \<in> set (take (nat (sint k)) hs) \<or> x = arr then None else mem s x)\<rparr>)"
proof -
  let ?n = "nat (sint k)"
  let ?s1 = "s\<lparr>mem := (\<lambda>x. if x \<in> set (drop 0 (take ?n hs)) then None else mem s x)\<rparr>"
  have d: "delete_rows arr ?n 0 s = (Ok (), ?s1)"
    using assms by (intro delete_rows_closed) (simp_all add: ptrs_of_def)
  have "arr \<notin> set (take ?n hs)" using assms(4) by (meson in_set_takeD)
  then have m1: "mem ?s1 arr = Some (by_malloc, PtrArr hs)" using assms(1) by simp
  have f: "std_free (Some arr) ?s1 = (Ok (), ?s1\<lparr>mem := (mem ?s1)(arr := None)\<rparr>)"
    unfolding std_free_def using m1 by (simp add: release_ok)
  have "?s1\<lparr>mem := (mem ?s1)(arr := None)\<rparr> =
      s\<lparr>mem := (\<lambda>x. if x \<in> set (take ?n hs) \<or> x = arr then None else mem s x)\<rparr>"
    by (rule store.equality) (auto simp: fun_eq_iff)
  with d f show ?thesis by (simp add: cleanup_eq_def andthen_def)
qed

lemma marshal_nonpos:
  fixes s :: "'d gnm_frame"
  assumes "sint (found s) \<le> 0" "Eq s = None" "mem s answers = Some (oa, PtrCell p)"
  shows "gnm_marshal W sz answers s =
     (Ok (if found s = 0 then 0 else - 3), s\<lparr>mem := (mem s)(answers \<mapsto> (oa, PtrCell None))\<rparr>)"
proof -
  have "found s \<noteq> 0 \<Longrightarrow> sint (found s) < 0"
    using assms(1) by (metis order_le_less sint_0 signed_eq_0_iff)
  then show ?thesis
    using assms by (auto simp: gnm_marshal_def andthen_def yield_def write_ptr_ok)
qed

lemma marshal_nonpos_arr:
  fixes s :: "'d gnm_frame"
  assumes "sint (found s) \<le> 0" "Eq s = Some arr" "mem s arr = Some (by_malloc, PtrArr hs)"
    "mem s answers = Some (oa, PtrCell p)" "distinct hs" "arr \<notin> set hs"
  shows "gnm_marshal W sz answers s =
     (Ok (if found s = 0 then 0 else - 3),
      s\<lparr>mem := (mem s)(arr := None, answers \<mapsto> (oa, PtrCell None))\<rparr>)"
proof -
  have neg: "found s \<noteq> 0 \<Longrightarrow> sint (found s) < 0"
    using assms(1) by (metis order_le_less sint_0 signed_eq_0_iff)
  have ne: "arr \<noteq> answers" using assms(3,4) by auto
  let ?s1 = "s\<lparr>mem := (\<lambda>x. if x \<in> set (take (nat (sint (0 :: c_int))) hs) \<or> x = arr then None else mem s x)\<rparr>"
  have c: "cleanup_eq (Some arr) 0 s = (Ok (), ?s1)"
    using assms by (intro cleanup_eq_closed) simp_all
  have w: "write_ptr answers None ?s1 = (Ok (), ?s1\<lparr>mem := (mem ?s1)(answers \<mapsto> (oa, PtrCell None))\<rparr>)"
    using assms(4) ne by (intro write_ptr_ok [where p = p]) simp
  have e: "?s1\<lparr>mem := (mem ?s1)(answers \<mapsto> (oa, PtrCell None))\<rparr> =
      s\<lparr>mem := (mem s)(arr := None, answers \<mapsto> (oa, PtrCell None))\<rparr>"
    by (rule gnm_frame.equality) (auto simp: fun_eq_iff)
  show ?thesis
    using neg assms(2) c w e by (auto simp: gnm_marshal_def andthen_def yield_def)
qed

lemma unat_total:
  assumes "0 < sint (r :: c_int)" "0 < sint (m :: c_int)"
  shows "unat (scast r * scast m :: size_t) = nat (sint r) * nat (sint m)"
proof -
  have a: "unat (scast r :: size_t) = nat (sint r)" using assms(1) by (rule unat_scast_pos)
  have b: "unat (scast m :: size_t) = nat (sint m)" using assms(2) by (rule unat_scast_pos)
  have "nat (sint r) < 2147483648" "nat (sint m) < 2147483648"
    using sint_c_int_bound [of r] sint_c_int_bound [of m] assms by simp_all
  then have "nat (sint r) * nat (sint m) \<le> 2147483648 * 2147483648"
    by (intro mult_le_mono) simp_all
  then have "unat (scast r :: size_t) * unat (scast m :: size_t) < 2 ^ LENGTH(64)"
    unfolding a b by simp
  then show ?thesis
    unfolding a [symmetric] b [symmetric] by (rule unat_mult_lem [THEN iffD1])
qed

lemma marshal_nomem:
  fixes s :: "'d gnm_frame"
  assumes "0 < sint (found s)" "malloc_fails W" "Eq s = Some arr"
    "mem s arr = Some (by_malloc, PtrArr hs)" "length hs = nat (sint (found s))" "distinct hs"
    "arr \<notin> set hs" "\<forall>h \<in> set hs. origin_of s h = Some by_new"
  shows "gnm_marshal W sz answers s =
     (Ok (- 2), s\<lparr>mem := (\<lambda>x. if x \<in> set hs \<or> x = arr then None else mem s x),
                  allocs := Suc (allocs s), Eq := None, buf := None\<rparr>)"
proof -
  have nz: "found s \<noteq> 0" "\<not> sint (found s) < 0" using assms(1) by auto
  let ?s2 = "s\<lparr>allocs := Suc (allocs s), buf := None\<rparr>"
  have m: "malloc W (unat (scast (found s) * scast (sz_M sz) :: size_t)) s = (None, s\<lparr>allocs := Suc (allocs s)\<rparr>)"
    using assms(2) by (simp add: malloc_def)
  have c: "cleanup_eq (Some arr) (found s) ?s2 =
     (Ok (), ?s2\<lparr>mem := (\<lambda>x. if x \<in> set (take (nat (sint (found s))) hs) \<or> x = arr then None else mem ?s2 x)\<rparr>)"
    using assms by (intro cleanup_eq_closed) (simp_all add: origin_of_def)
  have e: "?s2\<lparr>mem := (\<lambda>x. if x \<in> set (take (nat (sint (found s))) hs) \<or> x = arr then None else mem ?s2 x)\<rparr>
      \<lparr>Eq := None\<rparr> =
      s\<lparr>mem := (\<lambda>x. if x \<in> set hs \<or> x = arr then None else mem s x),
                  allocs := Suc (allocs s), Eq := None, buf := None\<rparr>"
    using assms(5) by (intro gnm_frame.equality) (auto simp: fun_eq_iff)
  show ?thesis
    using nz m c e assms(3) by (simp add: gnm_marshal_def andthen_def yield_def Let_def)
qed

lemma marshal_success:
  fixes s :: "'d gnm_frame"
  assumes pos: "0 < sint (found s)" "0 < sint (sz_M sz)" and mal: "\<not> malloc_fails W"
    and ok: "store_ok s"
    and eq: "Eq s = Some arr" "mem s arr = Some (by_malloc, PtrArr hs)"
    and hs: "length hs = nat (sint (found s))" "length rows = nat (sint (found s))" "distinct hs"
      "arr \<notin> set hs"
    and rows: "\<forall>i < nat (sint (found s)). mem s (hs ! i) = Some (by_new, DblArr (rows ! i)) \<and>
          nat (sint (sz_M sz)) \<le> length (rows ! i)"
    and ans: "mem s answers = Some (oa, PtrCell p)"
  shows "gnm_marshal W sz answers s =
     (Ok (found s),
      s\<lparr>mem := (\<lambda>x. if x \<in> set hs \<or> x = arr then None
                     else if x = answers then Some (oa, PtrCell (Some (brk s)))
                     else if x = brk s
                       then Some (by_malloc, DblArr (concat (map (take (nat (sint (sz_M sz)))) rows)))
                     else mem s x),
         brk := Suc (brk s), allocs := Suc (allocs s), Eq := None, buf := None\<rparr>)"
proof -
  define r where "r = nat (sint (found s))"
  define M where "M = nat (sint (sz_M sz))"
  define b where "b = brk s"
  define U where "U = map (uninit W b) [0..<r * M]"
  have nz: "found s \<noteq> 0" "\<not> sint (found s) < 0" using pos by auto
  have fresh: "mem s b = None" using ok by (simp add: store_ok_def b_def)
  have live: "\<And>h. h \<in> set hs \<Longrightarrow> \<exists>row. mem s h = Some (by_new, DblArr row)"
  proof -
    fix h assume "h \<in> set hs"
    then obtain i where "i < length hs" "hs ! i = h" by (auto simp: in_set_conv_nth)
    with rows hs(1) show "\<exists>row. mem s h = Some (by_new, DblArr row)" by auto
  qed
  have "b \<notin> set hs"
  proof
    assume "b \<in> set hs"
    from live [OF this] fresh show False by simp
  qed
  moreover have "answers \<notin> set hs"
  proof
    assume "answers \<in> set hs"
    from live [OF this] ans show False by simp
  qed
  moreover have "b \<noteq> arr" "b \<noteq> answers" "arr \<noteq> answers"
    using fresh eq(2) ans by auto
  ultimately have bne: "b \<notin> set hs" "b \<noteq> arr" "b \<noteq> answers" "arr \<noteq> answers"
    "answers \<notin> set hs"
    by simp_all
  define s2 where "s2 = s\<lparr>mem := (mem s)(b \<mapsto> (by_malloc, DblArr U)), brk := Suc b,
      allocs := Suc (allocs s), buf := Some b\<rparr>"
  have m: "malloc W (unat (scast (found s) * scast (sz_M sz) :: size_t)) s =
      (Some b, s\<lparr>allocs := Suc (allocs s), mem := (mem s)(b \<mapsto> (by_malloc, DblArr U)), brk := Suc b\<rparr>)"
    using mal by (simp add: malloc_def blk_alloc_def unat_total [OF pos] U_def r_def M_def b_def)
  define C where "C = concat (map (take M) rows)"
  define s3 where "s3 = s2\<lparr>mem := (mem s2)(b \<mapsto> (by_malloc, DblArr C))\<rparr>"
  have p: "pack_rows b (Some arr) M r 0 s2 = (Ok (), s3)"
  proof -
    have "pack_rows b (Some arr) M r 0 s2 =
       (Ok (), s2\<lparr>mem := (mem s2)(b \<mapsto> (by_malloc, DblArr (take (0 * M) U @
          concat (map (take M) (drop 0 (take r rows))) @ drop (r * M) U)))\<rparr>)"
    proof (rule pack_rows_closed [where hs = hs])
      show "ptrs_of s2 arr = Some hs" using eq(2) bne by (simp add: s2_def ptrs_of_def)
      show "r \<le> length hs" "r \<le> length rows" using hs by (simp_all add: r_def)
      show "mem s2 b = Some (by_malloc, DblArr U)" by (simp add: s2_def)
      show "r * M \<le> length U" by (simp add: U_def)
      show "\<forall>i<r. \<exists>og'. mem s2 (hs ! i) = Some (og', DblArr (rows ! i)) \<and> M \<le> length (rows ! i)"
      proof (intro allI impI)
        fix i assume i: "i < r"
        then have "hs ! i \<in> set hs" using hs(1) by (simp add: r_def)
        with bne have "hs ! i \<noteq> b" by auto
        with rows i show "\<exists>og'. mem s2 (hs ! i) = Some (og', DblArr (rows ! i)) \<and> M \<le> length (rows ! i)"
          by (simp add: s2_def r_def M_def)
      qed
      show "b \<notin> set hs" "b \<noteq> arr" using bne by simp_all
    qed simp
    also have "take (0 * M) U @ concat (map (take M) (drop 0 (take r rows))) @ drop (r * M) U = C"
      using hs(2) by (simp add: U_def C_def r_def)
    finally show ?thesis unfolding s3_def .
  qed
  define s4 where "s4 = s3\<lparr>mem := (\<lambda>x. if x \<in> set (take (nat (sint (found s))) hs) \<or> x = arr then None else mem s3 x)\<rparr>"
  have c: "cleanup_eq (Some arr) (found s) s3 = (Ok (), s4)"
    unfolding s4_def
  proof (rule cleanup_eq_closed)
    show "mem s3 arr = Some (by_malloc, PtrArr hs)" using eq(2) bne by (simp add: s3_def s2_def)
    show "nat (sint (found s)) \<le> length hs" using hs by simp
    show "distinct hs" "arr \<notin> set hs" using hs by simp_all
    show "\<forall>h\<in>set (take (nat (sint (found s))) hs). origin_of s3 h = Some by_new"
    proof
      fix h assume "h \<in> set (take (nat (sint (found s))) hs)"
      then have h: "h \<in> set hs" by (meson in_set_takeD)
      with bne have "h \<noteq> b" by auto
      with live [OF h] show "origin_of s3 h = Some by_new"
        by (auto simp: s3_def s2_def origin_of_def)
    qed
  qed
  define s5 where "s5 = s4\<lparr>Eq := None\<rparr>"
  have w: "write_ptr answers (Some b) s5 = (Ok (), s5\<lparr>mem := (mem s5)(answers \<mapsto> (oa, PtrCell (Some b)))\<rparr>)"
    using ans bne hs(1) by (intro write_ptr_ok [where p = p]) (simp add: s5_def s4_def s3_def s2_def)
  have e: "s5\<lparr>mem := (mem s5)(answers \<mapsto> (oa, PtrCell (Some b))), buf := None\<rparr> =
      s\<lparr>mem := (\<lambda>x. if x \<in> set hs \<or> x = arr then None
                     else if x = answers then Some (oa, PtrCell (Some (brk s)))
                     else if x = brk s
                       then Some (by_malloc, DblArr (concat (map (take (nat (sint (sz_M sz)))) rows)))
                     else mem s x),
         brk := Suc (brk s), allocs := Suc (allocs s), Eq := None, buf := None\<rparr>"
    using hs(1) bne
    by (intro gnm_frame.equality)
      (auto simp: s5_def s4_def s3_def s2_def fun_eq_iff b_def C_def M_def)
  have f: "found s5 = found s" "found s2 = found s" "Eq s2 = Some arr"
    by (simp_all add: s5_def s4_def s3_def s2_def eq)
  have s2': "s\<lparr>allocs := Suc (allocs s), mem := (mem s)(b \<mapsto> (by_malloc, DblArr U)), brk := Suc b,
      buf := Some b\<rparr> = s2"
    unfolding s2_def by (intro gnm_frame.equality) simp_all
  have body: "gnm_marshal W sz answers s =
      andthen (pack_rows b (Some arr) M r 0) (\<lambda>u.
      andthen (cleanup_eq (Some arr) (found s)) (\<lambda>u s.
      andthen (write_ptr answers (Some b)) (\<lambda>u s'.
      yield (found s') (s'\<lparr>buf := None\<rparr>)) (s\<lparr>Eq := None\<rparr>))) s2"
    unfolding gnm_marshal_def using nz m
    by (simp add: Let_def s2' elems_pos [OF pos(2)] M_def r_def f eq(1))
  have "gnm_marshal W sz answers s =
      (Ok (found s), s5\<lparr>mem := (mem s5)(answers \<mapsto> (oa, PtrCell (Some b))), buf := None\<rparr>)"
    unfolding body by (simp add: andthen_def p c s5_def [symmetric] w f yield_def)
  then show ?thesis unfolding e .
qed

subsection \<open>Execution of the body of \<^verbatim>\<open>gnm\<close>\<close>

lemma call_GNM_throws_bare:
  fixes s :: "'d gnm_frame"
  shows "mem s A = Some (og0, GameObj n a p) \<Longrightarrow> mem s gvec = Some (og1, DblArr gv) \<Longrightarrow>
   GNM W (n, a, p) gv steps fuzz lnmfreq lnmmax lambdamin wobble threshold = GNM_throws e None \<Longrightarrow>
   call_GNM W A gvec steps fuzz lnmfreq lnmmax lambdamin wobble threshold s =
     (Throw e, s\<lparr>solver_calls := Suc (solver_calls s)\<rparr>)"
  by (simp add: call_GNM_def game_of_def dbls_of_def)

lemma call_GNM_throws_rows:
  fixes s :: "'d gnm_frame"
  assumes "mem s A = Some (og0, GameObj n a p)" "mem s gvec = Some (og1, DblArr gv)"
    "GNM W (n, a, p) gv steps fuzz lnmfreq lnmmax lambdamin wobble threshold =
       GNM_throws e (Some rows)"
  shows "call_GNM W A gvec steps fuzz lnmfreq lnmmax lambdamin wobble threshold s =
     (Throw e, s\<lparr>mem := (\<lambda>x. if x = brk s + length rows
                            then Some (by_malloc, PtrArr [brk s..<brk s + length rows])
                          else if brk s \<le> x \<and> x < brk s + length rows
                            then Some (by_new, DblArr (rows ! (x - brk s)))
                          else mem s x),
               brk := Suc (brk s + length rows),
               solver_calls := Suc (solver_calls s), Eq := Some (brk s + length rows)\<rparr>)"
proof -
  let ?s1 = "s\<lparr>solver_calls := Suc (solver_calls s)\<rparr>"
  have "call_GNM W A gvec steps fuzz lnmfreq lnmmax lambdamin wobble threshold s =
      (case new_handles rows ?s1 of (hs, st3) \<Rightarrow>
         (case blk_alloc by_malloc (PtrArr hs) st3 of (a, st4) \<Rightarrow> (Throw e, st4\<lparr>Eq := Some a\<rparr>)))"
    using assms by (simp add: call_GNM_def game_of_def dbls_of_def Let_def)
  also have "\<dots> = (Throw e, s\<lparr>mem := (\<lambda>x. if x = brk s + length rows
                            then Some (by_malloc, PtrArr [brk s..<brk s + length rows])
                          else if brk s \<le> x \<and> x < brk s + length rows
                            then Some (by_new, DblArr (rows ! (x - brk s)))
                          else mem s x),
               brk := Suc (brk s + length rows),
               solver_calls := Suc (solver_calls s), Eq := Some (brk s + length rows)\<rparr>)"
    unfolding new_handles_closed
    by (simp add: blk_alloc_def) (rule gnm_frame.equality; auto simp: fun_eq_iff)
  finally show ?thesis .
qed

lemma call_GNM_returns_null:
  fixes s :: "'d gnm_frame"
  shows "mem s A = Some (og0, GameObj n a p) \<Longrightarrow> mem s gvec = Some (og1, DblArr gv) \<Longrightarrow>
   GNM W (n, a, p) gv steps fuzz lnmfreq lnmmax lambdamin wobble threshold = GNM_returns r gv' None \<Longrightarrow>
   call_GNM W A gvec steps fuzz lnmfreq lnmmax lambdamin wobble threshold s =
     (Ok (), s\<lparr>mem := (mem s)(gvec \<mapsto> (og1, DblArr gv')),
               solver_calls := Suc (solver_calls s), found := r\<rparr>)"
  by (simp add: call_GNM_def game_of_def dbls_of_def poke_def)

lemma call_GNM_returns_rows:
  fixes s :: "'d gnm_frame"
  assumes "mem s A = Some (og0, GameObj n a p)" "mem s gvec = Some (og1, DblArr gv)"
    "GNM W (n, a, p) gv steps fuzz lnmfreq lnmmax lambdamin wobble threshold =
       GNM_returns r gv' (Some rows)"
  shows "call_GNM W A gvec steps fuzz lnmfreq lnmmax lambdamin wobble threshold s =
     (Ok (), s\<lparr>mem := (\<lambda>x. if x = brk s + length rows
                            then Some (by_malloc, PtrArr [brk s..<brk s + length rows])
                          else if brk s \<le> x \<and> x < brk s + length rows
                            then Some (by_new, DblArr (rows ! (x - brk s)))
                          else ((mem s)(gvec \<mapsto> (og1, DblArr gv'))) x),
               brk := Suc (brk s + length rows),
               solver_calls := Suc (solver_calls s), Eq := Some (brk s + length rows), found := r\<rparr>)"
proof -
  let ?s2 = "poke gvec (DblArr gv') (s\<lparr>solver_calls := Suc (solver_calls s)\<rparr>)"
  have p: "?s2 = s\<lparr>mem := (mem s)(gvec \<mapsto> (og1, DblArr gv')), solver_calls := Suc (solver_calls s)\<rparr>"
    using assms(2) by (simp add: poke_def)
  have "call_GNM W A gvec steps fuzz lnmfreq lnmmax lambdamin wobble threshold s =
      (case new_handles rows ?s2 of (hs, st3) \<Rightarrow>
         (case blk_alloc by_malloc (PtrArr hs) st3 of (a, st4) \<Rightarrow> (Ok (), st4\<lparr>Eq := Some a, found := r\<rparr>)))"
    using assms by (simp add: call_GNM_def game_of_def dbls_of_def Let_def)
  also have "\<dots> = (Ok (), s\<lparr>mem := (\<lambda>x. if x = brk s + length rows
                            then Some (by_malloc, PtrArr [brk s..<brk s + length rows])
                          else if brk s \<le> x \<and> x < brk s + length rows
                            then Some (by_new, DblArr (rows ! (x - brk s)))
                          else ((mem s)(gvec \<mapsto> (og1, DblArr gv'))) x),
               brk := Suc (brk s + length rows),
               solver_calls := Suc (solver_calls s), Eq := Some (brk s + length rows), found := r\<rparr>)"
    unfolding new_handles_closed p
    by (simp add: blk_alloc_def) (rule gnm_frame.equality; auto simp: fun_eq_iff)
  finally show ?thesis .
qed

lemma catch_bare:
  fixes s :: "'d gnm_frame"
  assumes "Eq s = None" "buf s = None" "mem s answers = Some (oa, PtrCell p)"
  shows "gnm_catch e answers s =
     (Ok (error_code e), s\<lparr>mem := (mem s)(answers \<mapsto> (oa, PtrCell None))\<rparr>)"
  using assms
  by (simp add: gnm_catch_def andthen_def yield_def write_ptr_ok error_code_def)

lemma catch_arr:
  fixes s :: "'d gnm_frame"
  assumes "Eq s = Some arr" "buf s = None" "found s = 0"
    "mem s arr = Some (by_malloc, PtrArr hs)" "mem s answers = Some (oa, PtrCell p)"
    "distinct hs" "arr \<notin> set hs"
  shows "gnm_catch e answers s =
     (Ok (error_code e), s\<lparr>mem := (mem s)(arr := None, answers \<mapsto> (oa, PtrCell None))\<rparr>)"
proof -
  have ne: "arr \<noteq> answers" using assms(4,5) by auto
  let ?s1 = "s\<lparr>mem := (\<lambda>x. if x \<in> set (take (nat (sint (0 :: c_int))) hs) \<or> x = arr then None else mem s x)\<rparr>"
  have c: "cleanup_eq (Some arr) 0 s = (Ok (), ?s1)"
    using assms by (intro cleanup_eq_closed) simp_all
  have w: "write_ptr answers None ?s1 = (Ok (), ?s1\<lparr>mem := (mem ?s1)(answers \<mapsto> (oa, PtrCell None))\<rparr>)"
    using assms(5) ne by (intro write_ptr_ok [where p = p]) simp
  have e: "?s1\<lparr>mem := (mem ?s1)(answers \<mapsto> (oa, PtrCell None))\<rparr> =
      s\<lparr>mem := (mem s)(arr := None, answers \<mapsto> (oa, PtrCell None))\<rparr>"
    by (rule gnm_frame.equality) (auto simp: fun_eq_iff)
  show ?thesis
    using assms(1-3) c w e
    by (simp add: gnm_catch_def andthen_def yield_def error_code_def)
qed

lemma gnm_body_exec:
  fixes fr :: "'d gnm_frame" and W :: "'d world" and fuzz lambdamin threshold :: 'd
    and steps lnmfreq lnmmax wobble :: c_int
  assumes ok: "store_ok fr" and init: "Eq fr = None" "found fr = 0" "buf fr = None"
    and sz: "0 < sint (sz_N sz)" "0 < sint (sz_M sz)" "0 < sint (sz_payoff_len sz)"
    and acts: "mem fr actions = Some (o1, IntArr src)" "nat (sint (sz_N sz)) \<le> length src"
    and pay: "mem fr payoffs = Some (o2, DblArr pay)" "nat (sint (sz_payoff_len sz)) \<le> length pay"
    and g: "mem fr g = Some (o3, DblArr gv)" "nat (sint (sz_M sz)) \<le> length gv"
    and ans: "mem fr answers = Some (oa, PtrCell p)"
  defines "out \<equiv> GNM W (sz_N sz, take (nat (sint (sz_N sz))) src, take (nat (sint (sz_payoff_len sz))) pay)
            (take (nat (sint (sz_M sz))) gv) steps fuzz lnmfreq lnmmax lambdamin wobble threshold"
    and "body \<equiv> (case gnm_try W sz actions payoffs g answers steps fuzz lnmfreq lnmmax lambdamin
                         wobble threshold fr of
                    (Throw e, fr1) \<Rightarrow> gnm_catch e answers fr1
                  | (r, fr1) \<Rightarrow> (r, fr1))"
    and "m0 \<equiv> (mem fr)(answers \<mapsto> (oa, PtrCell None))"
  shows "first_throw W [Acts, Payvec, Nfgame, Gvec] = Some e \<Longrightarrow>
           \<exists>fr'. body = (Ok (error_code e), fr') \<and> mem fr' = m0 \<and> solver_calls fr' = solver_calls fr"
    and "first_throw W [Acts, Payvec, Nfgame, Gvec] = None \<Longrightarrow> out = GNM_throws e eq \<Longrightarrow>
           \<exists>fr'. body = (Ok (error_code e), fr') \<and>
             mem fr' = m0 ++ handle_blocks (brk fr + 4) (case eq of None \<Rightarrow> [] | Some rows \<Rightarrow> rows)"
    and "first_throw W [Acts, Payvec, Nfgame, Gvec] = None \<Longrightarrow> out = GNM_returns r gv' eq \<Longrightarrow>
         sint r \<le> 0 \<Longrightarrow>
           \<exists>fr'. body = (Ok (if r = 0 then 0 else - 3), fr') \<and>
             mem fr' = m0 ++ handle_blocks (brk fr + 4) (case eq of None \<Rightarrow> [] | Some rows \<Rightarrow> rows)"
    and "first_throw W [Acts, Payvec, Nfgame, Gvec] = None \<Longrightarrow> out = GNM_returns r gv' (Some rows) \<Longrightarrow>
         0 < sint r \<Longrightarrow> length rows = nat (sint r) \<Longrightarrow> malloc_fails W \<Longrightarrow>
           \<exists>fr'. body = (Ok (- 2), fr') \<and> mem fr' = mem fr"
    and "first_throw W [Acts, Payvec, Nfgame, Gvec] = None \<Longrightarrow> out = GNM_returns r gv' (Some rows) \<Longrightarrow>
         0 < sint r \<Longrightarrow> length rows = nat (sint r) \<Longrightarrow> \<not> malloc_fails W \<Longrightarrow>
         \<forall>row \<in> set rows. nat (sint (sz_M sz)) \<le> length row \<Longrightarrow>
           \<exists>fr'. body = (Ok r, fr') \<and>
             mem fr' = (mem fr)
               (answers \<mapsto> (oa, PtrCell (Some (brk fr + 5 + length rows))),
                brk fr + 5 + length rows \<mapsto>
                  (by_malloc, DblArr (concat (map (take (nat (sint (sz_M sz)))) rows))))"
proof -
  define n where "n = nat (sint (sz_N sz))"
  define L where "L = nat (sint (sz_payoff_len sz))"
  define M where "M = nat (sint (sz_M sz))"
  define b where "b = brk fr"
  define b1 where "b1 = Suc b"
  define b2 where "b2 = Suc b1"
  define b3 where "b3 = Suc b2"
  define b4 where "b4 = Suc b3"
  note bs = b1_def b2_def b3_def b4_def
  note fold = n_def [symmetric] L_def [symmetric] M_def [symmetric]
  have lt: "answers < b" "b < b1" "b1 < b2" "b2 < b3" "b3 < b4"
    using ok ans by (auto simp: b_def bs intro: live_below)
  have ne [simp]:
    "answers \<noteq> b" "answers \<noteq> b1" "answers \<noteq> b2" "answers \<noteq> b3" "answers \<noteq> b4"
    "b \<noteq> answers" "b1 \<noteq> answers" "b2 \<noteq> answers" "b3 \<noteq> answers" "b4 \<noteq> answers"
    "b \<noteq> b1" "b \<noteq> b2" "b \<noteq> b3" "b \<noteq> b4"
    "b1 \<noteq> b" "b1 \<noteq> b2" "b1 \<noteq> b3" "b1 \<noteq> b4"
    "b2 \<noteq> b" "b2 \<noteq> b1" "b2 \<noteq> b3" "b2 \<noteq> b4"
    "b3 \<noteq> b" "b3 \<noteq> b1" "b3 \<noteq> b2" "b3 \<noteq> b4"
    "b4 \<noteq> b" "b4 \<noteq> b1" "b4 \<noteq> b2" "b4 \<noteq> b3"
    using lt by auto
  have above: "\<And>x. b \<le> x \<Longrightarrow> mem fr x = None"
    using ok by (simp add: store_ok_def b_def)
  have fresh [simp]: "mem fr b = None" "mem fr b1 = None" "mem fr b2 = None" "mem fr b3 = None"
    "mem fr b4 = None"
    using lt by (auto intro!: above)
  have addr: "brk fr + 1 = b1" "brk fr + 2 = b2" "brk fr + 3 = b3" "brk fr + 4 = b4" "brk fr = b"
    "b + 1 = b1" "b + 2 = b2" "b + 3 = b3" "b + 4 = b4"
    "Suc b = b1" "Suc b1 = b2" "Suc b2 = b3" "Suc b3 = b4"
    by (simp_all add: b_def bs eval_nat_numeral)
  define B0 where "B0 = (by_new, IntArr (take n src) :: 'd block)"
  define B1 where "B1 = (by_new, DblArr (take L pay))"
  define B2 where "B2 = (by_new, GameObj (sz_N sz) (take n src) (take L pay))"
  define B3 where "B3 = (by_new, DblArr (take M gv))"
  define m4 where "m4 = (mem fr)(b \<mapsto> B0, b1 \<mapsto> B1, b2 \<mapsto> B2, b3 \<mapsto> B3)"
  define s4 where "s4 = fr\<lparr>mem := m4, brk := b4, allocs := allocs fr + 4\<rparr>"
  have s4_eq: "staged sz src pay gv fr = s4"
    unfolding s4_def staged_def B0_def B1_def B2_def B3_def m4_def
    by (rule gnm_frame.equality) (simp_all add: n_def L_def M_def b_def bs eval_nat_numeral)
  have m4_at [simp]: "m4 answers = mem fr answers" "m4 b2 = Some B2" "m4 b3 = Some B3"
    "m4 b1 = Some B1" "m4 b = Some B0"
    by (simp_all add: m4_def)
  have m4_else: "\<And>x. x \<noteq> b \<Longrightarrow> x \<noteq> b1 \<Longrightarrow> x \<noteq> b2 \<Longrightarrow> x \<noteq> b3 \<Longrightarrow> m4 x = mem fr x"
    by (simp add: m4_def)
  define K where "K = (\<lambda>A gvec.
      andthen (call_GNM W A gvec steps fuzz lnmfreq lnmmax lambdamin wobble threshold) (\<lambda>u.
      gnm_marshal W sz answers))"
  have pre: "gnm_try W sz actions payoffs g answers steps fuzz lnmfreq lnmmax lambdamin wobble
        threshold fr =
    (case ctor_throws W Acts of Some e \<Rightarrow> (Throw e, bump 1 0 fr) | None \<Rightarrow>
     case ctor_throws W Payvec of Some e \<Rightarrow> (Throw e, bump 2 1 fr) | None \<Rightarrow>
     case ctor_throws W Nfgame of Some e \<Rightarrow> (Throw e, bump 3 2 fr) | None \<Rightarrow>
     case ctor_throws W Gvec of Some e \<Rightarrow> (Throw e, bump 4 3 fr) | None \<Rightarrow>
       foldr leave_scope [b, b1, b2, b3] (K b2 b3 s4))"
    unfolding gnm_try_def K_def
    by (subst prefix_exec [OF ok sz acts pay g]) (simp add: addr s4_eq cong: option.case_cong)
  have out_eq: "out = GNM W (sz_N sz, take n src, take L pay) (take M gv) steps fuzz lnmfreq
      lnmmax lambdamin wobble threshold"
    by (simp add: out_def fold)
  have leave: "foldr leave_scope [b, b1, b2, b3] (r, s) =
      (r, s\<lparr>mem := (\<lambda>x. if x \<in> set [b, b1, b2, b3] then None else mem s x)\<rparr>)"
    if "r \<noteq> Fault" "mem s b = Some B0" "mem s b1 = Some B1" "mem s b2 = Some B2"
      "\<exists>blk. mem s b3 = Some (by_new, blk)"
    for r :: "c_int result" and s :: "'d gnm_frame"
    using that by (intro leave_scopes) (auto simp: B0_def B1_def B2_def)
  have four: "ctor_throws W Acts = None \<and> ctor_throws W Payvec = None \<and>
      ctor_throws W Nfgame = None \<and> ctor_throws W Gvec = None"
    if "first_throw W [Acts, Payvec, Nfgame, Gvec] = None"
    using that by (simp split: option.splits)
  have try_eq: "gnm_try W sz actions payoffs g answers steps fuzz lnmfreq lnmmax lambdamin wobble
        threshold fr = foldr leave_scope [b, b1, b2, b3] (K b2 b3 s4)"
    if "first_throw W [Acts, Payvec, Nfgame, Gvec] = None"
    unfolding pre using four [OF that] by simp
  show "first_throw W [Acts, Payvec, Nfgame, Gvec] = Some e \<Longrightarrow>
           \<exists>fr'. body = (Ok (error_code e), fr') \<and> mem fr' = m0 \<and> solver_calls fr' = solver_calls fr"
  proof -
    assume "first_throw W [Acts, Payvec, Nfgame, Gvec] = Some e"
    then obtain k j where t: "gnm_try W sz actions payoffs g answers steps fuzz lnmfreq lnmmax
        lambdamin wobble threshold fr = (Throw e, bump k j fr)"
      unfolding pre by (auto split: option.splits)
    have "gnm_catch e answers (bump k j fr) =
        (Ok (error_code e), (bump k j fr)\<lparr>mem := (mem (bump k j fr))(answers \<mapsto> (oa, PtrCell None))\<rparr>)"
      using init ans by (intro catch_bare [where p = p]) (simp_all add: bump_def)
    then show ?thesis
      unfolding body_def t by (simp add: bump_def m0_def)
  qed
  have hs_facts: "distinct [b4..<b4 + k]" "b4 + k \<notin> set [b4..<b4 + k]"
    "b \<notin> set [b4..<b4 + k]" "b1 \<notin> set [b4..<b4 + k]" "b2 \<notin> set [b4..<b4 + k]"
    "b3 \<notin> set [b4..<b4 + k]" "answers \<notin> set [b4..<b4 + k]"
    "b \<noteq> b4 + k" "b1 \<noteq> b4 + k" "b2 \<noteq> b4 + k" "b3 \<noteq> b4 + k" "answers \<noteq> b4 + k"
    "b \<noteq> Suc (b4 + k)" "b1 \<noteq> Suc (b4 + k)" "b2 \<noteq> Suc (b4 + k)" "b3 \<noteq> Suc (b4 + k)"
    "answers \<noteq> Suc (b4 + k)"
    for k
    using lt by auto
  show "first_throw W [Acts, Payvec, Nfgame, Gvec] = None \<Longrightarrow> out = GNM_throws e eq \<Longrightarrow>
           \<exists>fr'. body = (Ok (error_code e), fr') \<and>
             mem fr' = m0 ++ handle_blocks (brk fr + 4) (case eq of None \<Rightarrow> [] | Some rows \<Rightarrow> rows)"
  proof -
    assume ft: "first_throw W [Acts, Payvec, Nfgame, Gvec] = None" and o: "out = GNM_throws e eq"
    show ?thesis
    proof (cases eq)
      case None
      define s5 where "s5 = s4\<lparr>solver_calls := Suc (solver_calls s4)\<rparr>"
      have "call_GNM W b2 b3 steps fuzz lnmfreq lnmmax lambdamin wobble threshold s4 = (Throw e, s5)"
        unfolding s5_def using o None unfolding out_eq
        by (intro call_GNM_throws_bare [where n = "sz_N sz" and a = "take n src"
              and p = "take L pay" and gv = "take M gv"])
          (simp_all add: s4_def B2_def B3_def)
      then have k: "K b2 b3 s4 = (Throw e, s5)" by (simp add: K_def andthen_def)
      define t where "t = s5\<lparr>mem := (\<lambda>x. if x \<in> set [b, b1, b2, b3] then None else mem s5 x)\<rparr>"
      have l: "foldr leave_scope [b, b1, b2, b3] (Throw e :: c_int result, s5) = (Throw e, t)"
        unfolding t_def by (rule leave) (simp_all add: s5_def s4_def B3_def)
      have c: "gnm_catch e answers t = (Ok (error_code e), t\<lparr>mem := (mem t)(answers \<mapsto> (oa, PtrCell None))\<rparr>)"
        using init ans by (intro catch_bare [where p = p]) (simp_all add: t_def s5_def s4_def)
      have "(mem t)(answers \<mapsto> (oa, PtrCell None)) = m0 ++ handle_blocks (brk fr + 4) []"
        by (auto simp: fun_eq_iff t_def s5_def s4_def m0_def m4_else handle_blocks_def map_add_def)
      then show ?thesis
        unfolding body_def try_eq [OF ft] k l using c None by simp
    next
      case (Some rows)
      define arr where "arr = b4 + length rows"
      define m5 where "m5 = (\<lambda>x. if x = b4 + length rows then Some (by_malloc, PtrArr [b4..<b4 + length rows])
                    else if b4 \<le> x \<and> x < b4 + length rows then Some (by_new, DblArr (rows ! (x - b4)))
                    else m4 x)"
      define s5 where "s5 = s4\<lparr>mem := m5, brk := Suc (b4 + length rows),
               solver_calls := Suc (solver_calls s4), Eq := Some arr\<rparr>"
      have s4_f: "mem s4 = m4" "brk s4 = b4" "Eq s4 = None" "found s4 = 0" "buf s4 = None"
        by (simp_all add: s4_def init)
      have "call_GNM W b2 b3 steps fuzz lnmfreq lnmmax lambdamin wobble threshold s4 =
          (Throw e, s4\<lparr>mem := (\<lambda>x. if x = brk s4 + length rows
                            then Some (by_malloc, PtrArr [brk s4..<brk s4 + length rows])
                          else if brk s4 \<le> x \<and> x < brk s4 + length rows
                            then Some (by_new, DblArr (rows ! (x - brk s4)))
                          else mem s4 x),
               brk := Suc (brk s4 + length rows),
               solver_calls := Suc (solver_calls s4), Eq := Some (brk s4 + length rows)\<rparr>)"
        using o Some unfolding out_eq
        by (intro call_GNM_throws_rows [where n = "sz_N sz" and a = "take n src"
              and p = "take L pay" and gv = "take M gv"])
          (simp_all add: s4_def B2_def B3_def)
      then have "call_GNM W b2 b3 steps fuzz lnmfreq lnmmax lambdamin wobble threshold s4 = (Throw e, s5)"
        unfolding s5_def m5_def arr_def s4_f .
      then have k: "K b2 b3 s4 = (Throw e, s5)" by (simp add: K_def andthen_def)
      have f5: "mem s5 = m5" "Eq s5 = Some arr" "found s5 = 0" "buf s5 = None"
        by (simp_all add: s5_def s4_f)
      define t where "t = s5\<lparr>mem := (\<lambda>x. if x \<in> set [b, b1, b2, b3] then None else mem s5 x)\<rparr>"
      have l: "foldr leave_scope [b, b1, b2, b3] (Throw e :: c_int result, s5) = (Throw e, t)"
        unfolding t_def using lt by (intro leave) (auto simp: f5 m5_def B3_def)
      have c: "gnm_catch e answers t =
          (Ok (error_code e), t\<lparr>mem := (mem t)(arr := None, answers \<mapsto> (oa, PtrCell None))\<rparr>)"
        using ans lt
        by (intro catch_arr [where p = p and hs = "[b4..<b4 + length rows]"])
          (auto simp: t_def f5 m5_def arr_def)
      have "(mem t)(arr := None, answers \<mapsto> (oa, PtrCell None)) =
          m0 ++ handle_blocks (brk fr + 4) rows"
        using lt ans
        by (auto simp: fun_eq_iff t_def f5 m5_def m0_def m4_else handle_blocks_def map_add_def
            arr_def addr above)
      then show ?thesis
        unfolding body_def try_eq [OF ft] k l using c Some by simp
    qed
  qed
  have rows_step: "\<exists>s5. call_GNM W b2 b3 steps fuzz lnmfreq lnmmax lambdamin wobble threshold s4 = (Ok (), s5) \<and>
      mem s5 = (\<lambda>x. if x = b4 + length rows then Some (by_malloc, PtrArr [b4..<b4 + length rows])
                    else if b4 \<le> x \<and> x < b4 + length rows then Some (by_new, DblArr (rows ! (x - b4)))
                    else (m4(b3 \<mapsto> (by_new, DblArr gv'))) x) \<and>
      brk s5 = Suc (b4 + length rows) \<and> Eq s5 = Some (b4 + length rows) \<and> found s5 = r \<and>
      buf s5 = None"
    if "out = GNM_returns r gv' (Some rows)" for r gv' rows
  proof -
    have s4_f: "mem s4 = m4" "brk s4 = b4" "Eq s4 = None" "found s4 = 0" "buf s4 = None"
      by (simp_all add: s4_def init)
    define s5 where "s5 = s4\<lparr>mem := (\<lambda>x. if x = brk s4 + length rows
                            then Some (by_malloc, PtrArr [brk s4..<brk s4 + length rows])
                          else if brk s4 \<le> x \<and> x < brk s4 + length rows
                            then Some (by_new, DblArr (rows ! (x - brk s4)))
                          else ((mem s4)(b3 \<mapsto> (by_new, DblArr gv'))) x),
               brk := Suc (brk s4 + length rows),
               solver_calls := Suc (solver_calls s4), Eq := Some (brk s4 + length rows), found := r\<rparr>"
    have "call_GNM W b2 b3 steps fuzz lnmfreq lnmmax lambdamin wobble threshold s4 = (Ok (), s5)"
      unfolding s5_def using that unfolding out_eq
      by (intro call_GNM_returns_rows [where n = "sz_N sz" and a = "take n src"
              and p = "take L pay" and gv = "take M gv"])
        (simp_all add: s4_def B2_def B3_def)
    moreover have "mem s5 = (\<lambda>x. if x = b4 + length rows then Some (by_malloc, PtrArr [b4..<b4 + length rows])
                    else if b4 \<le> x \<and> x < b4 + length rows then Some (by_new, DblArr (rows ! (x - b4)))
                    else (m4(b3 \<mapsto> (by_new, DblArr gv'))) x)"
      unfolding s5_def s4_f by simp
    moreover have "brk s5 = Suc (b4 + length rows)" "Eq s5 = Some (b4 + length rows)" "found s5 = r"
      "buf s5 = None"
      unfolding s5_def s4_f by (simp_all add: s4_f)
    ultimately show ?thesis by blast
  qed
  show "first_throw W [Acts, Payvec, Nfgame, Gvec] = None \<Longrightarrow> out = GNM_returns r gv' eq \<Longrightarrow>
         sint r \<le> 0 \<Longrightarrow>
           \<exists>fr'. body = (Ok (if r = 0 then 0 else - 3), fr') \<and>
             mem fr' = m0 ++ handle_blocks (brk fr + 4) (case eq of None \<Rightarrow> [] | Some rows \<Rightarrow> rows)"
  proof -
    assume ft: "first_throw W [Acts, Payvec, Nfgame, Gvec] = None"
      and o: "out = GNM_returns r gv' eq" and r: "sint r \<le> 0"
    show ?thesis
    proof (cases eq)
      case None
      define s5 where "s5 = s4\<lparr>mem := (mem s4)(b3 \<mapsto> (by_new, DblArr gv')),
               solver_calls := Suc (solver_calls s4), found := r\<rparr>"
      have "call_GNM W b2 b3 steps fuzz lnmfreq lnmmax lambdamin wobble threshold s4 = (Ok (), s5)"
        unfolding s5_def using o None unfolding out_eq
        by (intro call_GNM_returns_null [where n = "sz_N sz" and a = "take n src"
              and p = "take L pay" and gv = "take M gv"])
          (simp_all add: s4_def B2_def B3_def)
      moreover define s6 where "s6 = s5\<lparr>mem := (mem s5)(answers \<mapsto> (oa, PtrCell None))\<rparr>"
      have "gnm_marshal W sz answers s5 = (Ok (if found s5 = 0 then 0 else - 3), s6)"
        unfolding s6_def using r ans init
        by (intro marshal_nonpos [where p = p]) (simp_all add: s5_def s4_def)
      ultimately have k: "K b2 b3 s4 = (Ok (if r = 0 then 0 else - 3), s6)"
        by (simp add: K_def andthen_def s5_def)
      define t where "t = s6\<lparr>mem := (\<lambda>x. if x \<in> set [b, b1, b2, b3] then None else mem s6 x)\<rparr>"
      have l: "foldr leave_scope [b, b1, b2, b3] (Ok (if r = 0 then 0 else - 3) :: c_int result, s6) =
          (Ok (if r = 0 then 0 else - 3), t)"
        unfolding t_def by (rule leave) (simp_all add: s6_def s5_def s4_def)
      have "mem t = m0 ++ handle_blocks (brk fr + 4) []"
        by (auto simp: fun_eq_iff t_def s6_def s5_def s4_def m0_def m4_else handle_blocks_def map_add_def)
      then show ?thesis
        unfolding body_def try_eq [OF ft] k l using None by simp
    next
      case (Some rows)
      from rows_step [OF o [unfolded Some]] obtain s5 where
        c5: "call_GNM W b2 b3 steps fuzz lnmfreq lnmmax lambdamin wobble threshold s4 = (Ok (), s5)"
        and m5: "mem s5 = (\<lambda>x. if x = b4 + length rows then Some (by_malloc, PtrArr [b4..<b4 + length rows])
                    else if b4 \<le> x \<and> x < b4 + length rows then Some (by_new, DblArr (rows ! (x - b4)))
                    else (m4(b3 \<mapsto> (by_new, DblArr gv'))) x)"
        and f5: "brk s5 = Suc (b4 + length rows)" "Eq s5 = Some (b4 + length rows)" "found s5 = r"
          "buf s5 = None"
        by blast
      define arr where "arr = b4 + length rows"
      define s6 where "s6 = s5\<lparr>mem := (mem s5)(arr := None, answers \<mapsto> (oa, PtrCell None))\<rparr>"
      have "gnm_marshal W sz answers s5 = (Ok (if found s5 = 0 then 0 else - 3), s6)"
        unfolding s6_def using r ans f5 lt
        by (intro marshal_nonpos_arr [where p = p and hs = "[b4..<b4 + length rows]"])
          (auto simp: m5 arr_def)
      with c5 have k: "K b2 b3 s4 = (Ok (if r = 0 then 0 else - 3), s6)"
        by (simp add: K_def andthen_def f5)
      define t where "t = s6\<lparr>mem := (\<lambda>x. if x \<in> set [b, b1, b2, b3] then None else mem s6 x)\<rparr>"
      have l: "foldr leave_scope [b, b1, b2, b3] (Ok (if r = 0 then 0 else - 3) :: c_int result, s6) =
          (Ok (if r = 0 then 0 else - 3), t)"
        unfolding t_def using lt by (intro leave) (auto simp: s6_def m5 arr_def)
      have "mem t = m0 ++ handle_blocks (brk fr + 4) rows"
        using lt ans
        by (auto simp: fun_eq_iff t_def s6_def m5 m0_def m4_else handle_blocks_def map_add_def
            arr_def addr above)
      then show ?thesis
        unfolding body_def try_eq [OF ft] k l using Some by simp
    qed
  qed
  show "first_throw W [Acts, Payvec, Nfgame, Gvec] = None \<Longrightarrow> out = GNM_returns r gv' (Some rows) \<Longrightarrow>
         0 < sint r \<Longrightarrow> length rows = nat (sint r) \<Longrightarrow> malloc_fails W \<Longrightarrow>
           \<exists>fr'. body = (Ok (- 2), fr') \<and> mem fr' = mem fr"
  proof -
    assume ft: "first_throw W [Acts, Payvec, Nfgame, Gvec] = None"
      and o: "out = GNM_returns r gv' (Some rows)" and r: "0 < sint r"
      and len: "length rows = nat (sint r)" and mf: "malloc_fails W"
    from rows_step [OF o] obtain s5 where
      c5: "call_GNM W b2 b3 steps fuzz lnmfreq lnmmax lambdamin wobble threshold s4 = (Ok (), s5)"
      and m5: "mem s5 = (\<lambda>x. if x = b4 + length rows then Some (by_malloc, PtrArr [b4..<b4 + length rows])
                  else if b4 \<le> x \<and> x < b4 + length rows then Some (by_new, DblArr (rows ! (x - b4)))
                  else (m4(b3 \<mapsto> (by_new, DblArr gv'))) x)"
      and f5: "brk s5 = Suc (b4 + length rows)" "Eq s5 = Some (b4 + length rows)" "found s5 = r"
        "buf s5 = None"
      by blast
    define arr where "arr = b4 + length rows"
    define hs where "hs = [b4..<b4 + length rows]"
    define s6 where "s6 = s5\<lparr>mem := (\<lambda>x. if x \<in> set hs \<or> x = arr then None else mem s5 x),
                  allocs := Suc (allocs s5), Eq := None, buf := None\<rparr>"
    have "gnm_marshal W sz answers s5 = (Ok (- 2), s6)"
      unfolding s6_def using r mf f5 len
      by (intro marshal_nomem) (auto simp: m5 arr_def hs_def origin_of_def)
    with c5 have k: "K b2 b3 s4 = (Ok (- 2), s6)"
      by (simp add: K_def andthen_def)
    define t where "t = s6\<lparr>mem := (\<lambda>x. if x \<in> set [b, b1, b2, b3] then None else mem s6 x)\<rparr>"
    have l: "foldr leave_scope [b, b1, b2, b3] (Ok (- 2) :: c_int result, s6) = (Ok (- 2), t)"
      unfolding t_def using lt by (intro leave) (auto simp: s6_def m5 arr_def hs_def)
    have "mem t = mem fr"
      using lt
      by (auto simp: fun_eq_iff t_def s6_def m5 m4_else arr_def hs_def above)
    then show ?thesis
      unfolding body_def try_eq [OF ft] k l by simp
  qed
  show "first_throw W [Acts, Payvec, Nfgame, Gvec] = None \<Longrightarrow> out = GNM_returns r gv' (Some rows) \<Longrightarrow>
         0 < sint r \<Longrightarrow> length rows = nat (sint r) \<Longrightarrow> \<not> malloc_fails W \<Longrightarrow>
         \<forall>row \<in> set rows. nat (sint (sz_M sz)) \<le> length row \<Longrightarrow>
           \<exists>fr'. body = (Ok r, fr') \<and>
             mem fr' = (mem fr)
               (answers \<mapsto> (oa, PtrCell (Some (brk fr + 5 + length rows))),
                brk fr + 5 + length rows \<mapsto>
                  (by_malloc, DblArr (concat (map (take (nat (sint (sz_M sz)))) rows))))"
  proof -
    assume ft: "first_throw W [Acts, Payvec, Nfgame, Gvec] = None"
      and o: "out = GNM_returns r gv' (Some rows)" and r: "0 < sint r"
      and len: "length rows = nat (sint r)" and mf: "\<not> malloc_fails W"
      and rl: "\<forall>row \<in> set rows. nat (sint (sz_M sz)) \<le> length row"
    from rows_step [OF o] obtain s5 where
      c5: "call_GNM W b2 b3 steps fuzz lnmfreq lnmmax lambdamin wobble threshold s4 = (Ok (), s5)"
      and m5: "mem s5 = (\<lambda>x. if x = b4 + length rows then Some (by_malloc, PtrArr [b4..<b4 + length rows])
                  else if b4 \<le> x \<and> x < b4 + length rows then Some (by_new, DblArr (rows ! (x - b4)))
                  else (m4(b3 \<mapsto> (by_new, DblArr gv'))) x)"
      and f5: "brk s5 = Suc (b4 + length rows)" "Eq s5 = Some (b4 + length rows)" "found s5 = r"
        "buf s5 = None"
      by blast
    define arr where "arr = b4 + length rows"
    define hs where "hs = [b4..<b4 + length rows]"
    define C where "C = concat (map (take (nat (sint (sz_M sz)))) rows)"
    define s6 where "s6 = s5\<lparr>mem := (\<lambda>x. if x \<in> set hs \<or> x = arr then None
                     else if x = answers then Some (oa, PtrCell (Some (brk s5)))
                     else if x = brk s5 then Some (by_malloc, DblArr C)
                     else mem s5 x),
         brk := Suc (brk s5), allocs := Suc (allocs s5), Eq := None, buf := None\<rparr>"
    have ok5: "store_ok s5"
      using lt by (auto simp: store_ok_def f5 m5 m4_else above)
    have "gnm_marshal W sz answers s5 = (Ok (found s5), s6)"
      unfolding s6_def C_def
    proof (rule marshal_success [where rows = rows and p = p])
      show "0 < sint (found s5)" "0 < sint (sz_M sz)" "\<not> malloc_fails W" "store_ok s5"
        using r sz mf ok5 by (simp_all add: f5)
      show "Eq s5 = Some arr" "mem s5 arr = Some (by_malloc, PtrArr hs)"
        by (simp_all add: f5 m5 arr_def hs_def)
      show "length hs = nat (sint (found s5))" "length rows = nat (sint (found s5))"
        "distinct hs" "arr \<notin> set hs"
        using len by (simp_all add: f5 hs_def arr_def)
      show "\<forall>i<nat (sint (found s5)). mem s5 (hs ! i) = Some (by_new, DblArr (rows ! i)) \<and>
          nat (sint (sz_M sz)) \<le> length (rows ! i)"
        using len rl by (auto simp: f5 hs_def m5)
      show "mem s5 answers = Some (oa, PtrCell p)"
        using lt ans by (simp add: m5)
    qed
    with c5 have k: "K b2 b3 s4 = (Ok r, s6)"
      by (simp add: K_def andthen_def f5)
    define t where "t = s6\<lparr>mem := (\<lambda>x. if x \<in> set [b, b1, b2, b3] then None else mem s6 x)\<rparr>"
    have l: "foldr leave_scope [b, b1, b2, b3] (Ok r :: c_int result, s6) = (Ok r, t)"
      unfolding t_def using lt by (intro leave) (auto simp: s6_def m5 arr_def hs_def f5)
    have "mem t = (mem fr)
               (answers \<mapsto> (oa, PtrCell (Some (brk fr + 5 + length rows))),
                brk fr + 5 + length rows \<mapsto> (by_malloc, DblArr C))"
    proof -
      have ba: "brk fr + 5 + length rows = Suc (b4 + length rows)"
        by (simp add: b_def bs)
      show ?thesis
        unfolding ba using lt
        by (auto simp: fun_eq_iff t_def s6_def m5 m4_else arr_def hs_def above f5)
    qed
    then show ?thesis
      unfolding body_def try_eq [OF ft] k l by (simp add: C_def)
  qed
qed

subsection \<open>The exported functions\<close>



lemma total_actions_nonneg:
  "\<forall>a \<in> set acts. 0 < sint a \<Longrightarrow> 0 \<le> total_actions acts"
  by (induction acts) (auto simp: total_actions_def)

lemma positive_sizes:
  assumes "\<forall>a \<in> set acts. 0 < sint a"
  shows "0 < profile_count acts" and "acts \<noteq> [] \<Longrightarrow> 0 < total_actions acts"
proof -
  show "0 < profile_count acts"
    using assms by (induction acts) (simp_all add: profile_count_def)
  show "0 < total_actions acts" if "acts \<noteq> []"
  proof (cases acts)
    case Nil
    with that show ?thesis by simp
  next
    case (Cons a rest)
    with assms have "0 < sint a" "0 \<le> total_actions rest"
      using total_actions_nonneg [of rest] by simp_all
    then show ?thesis by (simp add: Cons total_actions_def)
  qed
qed

lemma accepted_call:
  assumes "compute_sizes num_players (ints_at st actions) = Ok (Some sz)"
  shows "\<exists>a o1 src. actions = Some a \<and> mem st a = Some (o1, IntArr src) \<and>
           the_ints st actions = src \<and> nat (sint (sz_N sz)) \<le> length src \<and>
           sz_N sz = num_players \<and> 0 < sint (sz_N sz) \<and> 0 < sint (sz_M sz) \<and>
           0 < sint (sz_payoff_len sz)"
proof -
  from assms obtain xs where xs: "ints_at st actions = Some xs"
    by (cases "ints_at st actions") (auto simp: compute_sizes_def)
  then obtain a where a: "actions = Some a" by (auto simp: ints_at_def split: option.splits)
  define n where "n = nat (sint num_players)"
  from compute_sizes_Some [OF assms [unfolded xs]] have
    len: "n \<le> length xs" and fit: "sizes_fit num_players (take n xs)"
    and N: "sz_N sz = num_players"
    and M: "sint (sz_M sz) = total_actions (take n xs)"
    and L: "sint (sz_payoff_len sz) = sint num_players * profile_count (take n xs)"
    by (simp_all add: n_def)
  from fit have npos: "0 < sint num_players" and pos: "\<forall>a \<in> set (take n xs). 0 < sint a"
    by (simp_all add: sizes_fit_def)
  from npos have n0: "0 < n" by (simp add: n_def)
  with len have ne: "take n xs \<noteq> []" by auto
  then have "xs \<noteq> []" by auto
  with xs a obtain o1 where m: "mem st a = Some (o1, IntArr xs)"
    by (auto simp: ints_at_def ints_of_def split: option.splits block.splits)
  have "0 < sint (sz_M sz)" unfolding M using positive_sizes(2) [OF pos ne] .
  moreover have "0 < sint (sz_payoff_len sz)"
    unfolding L using npos positive_sizes(1) [OF pos] by simp
  ultimately show ?thesis
    using a m len N npos xs by (simp add: the_ints_def n_def)
qed

lemma dbl_bufferD:
  "dbl_buffer st p n \<Longrightarrow> \<exists>a og xs. p = Some a \<and> mem st a = Some (og, DblArr xs) \<and>
     the_dbls st p = xs \<and> n \<le> length xs"
  by (auto simp: dbl_buffer_def the_dbls_def dbls_of_def split: option.splits block.splits)


lemma ipa_refines:
  fixes st :: "'d store"
  assumes acc: "ipa_accepts st num_players actions payoffs g zh ans sz"
    and sol: "first_throw W [Acts, Payvec, Nfgame, Gvec, Zhvec, Ansvec] = None \<Longrightarrow>
              ipa_solver_ok W st sz actions payoffs g zh alpha fuzz"
  shows "\<exists>st'. ipa W num_players actions payoffs g zh alpha fuzz ans st =
            (Ok (fst (ipa_spec W st sz actions payoffs g zh alpha fuzz ans)), st') \<and>
          mem st' = snd (ipa_spec W st sz actions payoffs g zh alpha fuzz ans)"
proof -
  from acc have ok: "store_ok st"
    and cs: "compute_sizes num_players (ints_at st actions) = Ok (Some sz)"
    by (simp_all add: ipa_accepts_def)
  from accepted_call [OF cs] obtain a1 o1 src where
    a: "actions = Some a1" "mem st a1 = Some (o1, IntArr src)" "the_ints st actions = src"
      "nat (sint (sz_N sz)) \<le> length src"
    and s: "0 < sint (sz_N sz)" "0 < sint (sz_M sz)" "0 < sint (sz_payoff_len sz)"
    by blast
  from acc dbl_bufferD obtain a2 o2 pay where
    p: "payoffs = Some a2" "mem st a2 = Some (o2, DblArr pay)" "the_dbls st payoffs = pay"
      "nat (sint (sz_payoff_len sz)) \<le> length pay"
    unfolding ipa_accepts_def by blast
  from acc dbl_bufferD obtain a3 o3 gv where
    g: "g = Some a3" "mem st a3 = Some (o3, DblArr gv)" "the_dbls st g = gv"
      "nat (sint (sz_M sz)) \<le> length gv"
    unfolding ipa_accepts_def by blast
  from acc dbl_bufferD obtain a4 o4 zv where
    z: "zh = Some a4" "mem st a4 = Some (o4, DblArr zv)" "the_dbls st zh = zv"
      "nat (sint (sz_M sz)) \<le> length zv"
    unfolding ipa_accepts_def by blast
  from acc dbl_bufferD obtain a5 o5 av where
    n: "ans = Some a5" "mem st a5 = Some (o5, DblArr av)" "the_dbls st ans = av"
      "nat (sint (sz_M sz)) \<le> length av"
    unfolding ipa_accepts_def by blast
  define out where "out = ipa_solver W st sz actions payoffs g zh alpha fuzz"
  have out: "out = IPA W (sz_N sz, take (nat (sint (sz_N sz))) src, take (nat (sint (sz_payoff_len sz))) pay)
            (take (nat (sint (sz_M sz))) gv) (take (nat (sint (sz_M sz))) zv) alpha fuzz
            (map (uninit W (brk st + 5)) [0..<nat (sint (sz_M sz))])"
    unfolding out_def ipa_solver_def a(3) p(3) g(3) z(3) ..
  note ex = ipa_try_exec [where W = W and alpha = alpha and fuzz = fuzz, OF ok s a(2,4) p(2,4) g(2,4) z(2,4) n(2,4), folded out]
  have top: "ipa W num_players actions payoffs g zh alpha fuzz ans st =
      (case ipa_try W sz a1 a2 a3 a4 alpha fuzz a5 st of
         (Throw bad_alloc, st') \<Rightarrow> (Ok (- 2), st')
       | (Throw other_exception, st') \<Rightarrow> (Ok (- 3), st')
       | (r, st') \<Rightarrow> (r, st'))"
    using cs by (simp add: ipa_def a(1) p(1) g(1) z(1) n(1))
  show ?thesis
  proof (cases "first_throw W [Acts, Payvec, Nfgame, Gvec, Zhvec, Ansvec]")
    case (Some e)
    from ex(1) [OF Some] obtain k j where
      "ipa_try W sz a1 a2 a3 a4 alpha fuzz a5 st = (Throw e, bump k j st)" by blast
    then show ?thesis
      unfolding top using Some
      by (cases e) (simp_all add: ipa_spec_def error_code_def bump_def)
  next
    case None
    show ?thesis
    proof (cases out)
      case (IPA_throws e)
      from ex(2) [OF None IPA_throws] show ?thesis
        unfolding top using None IPA_throws
        by (cases e) (simp_all add: ipa_spec_def error_code_def bump_def out_def)
    next
      case (IPA_returns r gv' zv' av')
      with sol [OF None] have lens: "nat (sint (sz_M sz)) \<le> length zv'" "nat (sint (sz_M sz)) \<le> length av'"
        by (simp_all add: ipa_solver_ok_def out_def)
      have fin: "put_dbls ans (nat (sint (sz_M sz))) av' (put_dbls zh (nat (sint (sz_M sz))) zv' (mem st)) =
          (mem st)(a4 \<mapsto> (o4, DblArr (take (nat (sint (sz_M sz))) zv' @ drop (nat (sint (sz_M sz))) zv)),
                   a5 \<mapsto> (o5, DblArr (take (nat (sint (sz_M sz))) av' @ drop (nat (sint (sz_M sz))) av)))"
        using z n lens by (auto simp: put_dbls_def)
      from ex(3) [OF None IPA_returns lens] show ?thesis
        unfolding top using None IPA_returns
        by (cases r) (simp add: ipa_spec_def out_def [symmetric] fin bump_def)
    qed
  qed
qed

lemma gnm_refines:
  fixes st :: "'d store"
  assumes acc: "gnm_accepts st num_players actions payoffs g answers sz"
    and sol: "first_throw W [Acts, Payvec, Nfgame, Gvec] = None \<Longrightarrow>
              gnm_solver_ok W st sz actions payoffs g steps fuzz lnmfreq lnmmax lambdamin wobble
                threshold"
  shows "\<exists>st'. gnm W num_players actions payoffs g answers steps fuzz lnmfreq lnmmax lambdamin
                  wobble threshold st =
            (Ok (fst (gnm_spec W st sz actions payoffs g answers steps fuzz lnmfreq lnmmax
                        lambdamin wobble threshold)), st') \<and>
          mem st' = snd (gnm_spec W st sz actions payoffs g answers steps fuzz lnmfreq lnmmax
                           lambdamin wobble threshold)"
proof -
  from acc have ok: "store_ok st"
    and cs: "compute_sizes num_players (ints_at st actions) = Ok (Some sz)"
    by (simp_all add: gnm_accepts_def)
  from accepted_call [OF cs] obtain a1 o1 src where
    a: "actions = Some a1" "mem st a1 = Some (o1, IntArr src)" "the_ints st actions = src"
      "nat (sint (sz_N sz)) \<le> length src"
    and s: "0 < sint (sz_N sz)" "0 < sint (sz_M sz)" "0 < sint (sz_payoff_len sz)"
    by blast
  from acc dbl_bufferD obtain a2 o2 pay where
    p: "payoffs = Some a2" "mem st a2 = Some (o2, DblArr pay)" "the_dbls st payoffs = pay"
      "nat (sint (sz_payoff_len sz)) \<le> length pay"
    unfolding gnm_accepts_def by blast
  from acc dbl_bufferD obtain a3 o3 gv where
    g: "g = Some a3" "mem st a3 = Some (o3, DblArr gv)" "the_dbls st g = gv"
      "nat (sint (sz_M sz)) \<le> length gv"
    unfolding gnm_accepts_def by blast
  from acc obtain a4 oa q where
    n: "answers = Some a4" "mem st a4 = Some (oa, PtrCell q)"
    by (auto simp: gnm_accepts_def ptr_slot_def cell_of_def split: option.splits block.splits)
  define M where "M = nat (sint (sz_M sz))"
  define out where "out = gnm_solver W st sz actions payoffs g steps fuzz lnmfreq lnmmax
     lambdamin wobble threshold"
  have out: "out = GNM W (sz_N sz, take (nat (sint (sz_N sz))) src, take (nat (sint (sz_payoff_len sz))) pay)
            (take (nat (sint (sz_M sz))) gv) steps fuzz lnmfreq lnmmax lambdamin wobble threshold"
    unfolding out_def gnm_solver_def a(3) p(3) g(3) ..
  define m0 where "m0 = (mem st)(a4 \<mapsto> (oa, PtrCell None))"
  define st0 where "st0 = st\<lparr>mem := m0\<rparr>"
  define fr where "fr = enter_gnm st0"
  have wr: "write_ptr a4 None st = (Ok (), st0)"
    unfolding st0_def m0_def by (rule write_ptr_ok [OF n(2)])
  have ne: "a1 \<noteq> a4" "a2 \<noteq> a4" "a3 \<noteq> a4" using a(2) p(2) g(2) n(2) by auto
  have fr_mem: "mem fr = m0" and fr_brk: "brk fr = brk st"
    and fr_init: "Eq fr = None" "found fr = 0" "buf fr = None"
    by (simp_all add: fr_def enter_gnm_def st0_def)
  have fr_ok: "store_ok fr"
    using ok live_below [OF ok n(2)] by (auto simp: store_ok_def fr_mem fr_brk m0_def)
  have fa: "mem fr a1 = Some (o1, IntArr src)" and fp: "mem fr a2 = Some (o2, DblArr pay)"
    and fg: "mem fr a3 = Some (o3, DblArr gv)" and fn: "mem fr a4 = Some (oa, PtrCell None)"
    using ne a(2) p(2) g(2) by (simp_all add: fr_mem m0_def)
  have ia: "ints_at st0 actions = ints_at st actions"
    using ne a(2) by (simp add: ints_at_def ints_of_def st0_def m0_def a(1))
  have m00: "(mem fr)(a4 \<mapsto> (oa, PtrCell None)) = m0"
    by (simp add: fr_mem m0_def)
  have slot: "set_slot answers v (mem st) = (mem st)(a4 \<mapsto> (oa, PtrCell v))" for v
    by (simp add: set_slot_def n)
  note ex = gnm_body_exec [where W = W and steps = steps and fuzz = fuzz and lnmfreq = lnmfreq
      and lnmmax = lnmmax and lambdamin = lambdamin and wobble = wobble and threshold = threshold,
      OF fr_ok fr_init s fa a(4) fp p(4) fg g(4) fn, folded out, unfolded m00 fr_brk]
  define body where "body = (case gnm_try W sz a1 a2 a3 a4 steps fuzz lnmfreq lnmmax lambdamin
                         wobble threshold fr of
                    (Throw e, fr1) \<Rightarrow> gnm_catch e a4 fr1
                  | (r, fr1) \<Rightarrow> (r, fr1))"
  have top: "gnm W num_players actions payoffs g answers steps fuzz lnmfreq lnmmax lambdamin
                  wobble threshold st = (case body of (r, fr') \<Rightarrow> (r, leave_gnm fr'))"
    using cs ia
    by (simp add: gnm_def a(1) p(1) g(1) n(1) wr body_def fr_def split: prod.splits result.splits)
  have fin: "\<exists>st'. gnm W num_players actions payoffs g answers steps fuzz lnmfreq lnmmax lambdamin
                  wobble threshold st = (Ok c, st') \<and> mem st' = m"
    if "\<exists>fr'. body = (Ok c, fr') \<and> mem fr' = m" for c m
    using that unfolding top by (auto simp: leave_gnm_def)
  note ex' = ex [folded body_def]
  show ?thesis
  proof (cases "first_throw W [Acts, Payvec, Nfgame, Gvec]")
    case (Some e)
    from ex'(1) [OF Some] have "\<exists>fr'. body = (Ok (error_code e), fr') \<and> mem fr' = m0" by blast
    from fin [OF this] show ?thesis
      using Some by (simp add: gnm_spec_def slot m0_def)
  next
    case None
    show ?thesis
    proof (cases out)
      case (GNM_throws e eq)
      from fin [OF ex'(2) [OF None GNM_throws]] show ?thesis
        using None GNM_throws
        by (simp add: gnm_spec_def slot m0_def out_def [symmetric] rows_of_def)
    next
      case (GNM_returns r gv' eq)
      show ?thesis
      proof (cases "sint r \<le> 0")
        case True
        from fin [OF ex'(3) [OF None GNM_returns True]] show ?thesis
          using None GNM_returns True
          by (simp add: gnm_spec_def slot m0_def out_def [symmetric] rows_of_def)
      next
        case False
        with sol [OF None] GNM_returns obtain rows where
          eq: "eq = Some rows" and len: "length rows = nat (sint r)"
          and rows: "\<forall>row \<in> set rows. nat (sint (sz_M sz)) \<le> length row"
          by (auto simp: gnm_solver_ok_def out_def [symmetric] list_all_iff split: option.splits)
        from False have pos: "0 < sint r" by simp
        show ?thesis
        proof (cases "malloc_fails W")
          case True
          from fin [OF ex'(4) [OF None GNM_returns [unfolded eq] pos len True]] show ?thesis
            using None GNM_returns False True
            by (simp add: gnm_spec_def slot m0_def out_def [symmetric] fr_mem)
        next
          case nomem: False
          from fin [OF ex'(5) [OF None GNM_returns [unfolded eq] pos len nomem rows]] show ?thesis
            using None GNM_returns False nomem
            by (simp add: gnm_spec_def slot m0_def out_def [symmetric] fr_mem rows_of_def eq len)
        qed
      qed
    qed
  qed
qed









lemma malformed_unfit:
  "malformed num_players acts ptrs \<Longrightarrow> None \<notin> set ptrs \<Longrightarrow> \<not> sizes_fit num_players acts"
  unfolding malformed_def sizes_fit_def list_ex_iff by (meson not_less)

lemma ints_at_the_ints: "ints_at st (Some a) = Some (the_ints st (Some a))"
  by (simp add: the_ints_def ints_at_def split: option.splits)

lemma ipa_rejects:
  assumes "actions = None \<or> nat (sint num_players) \<le> length (the_ints st actions)"
    and "malformed num_players (take (nat (sint num_players)) (the_ints st actions))
           [actions, payoffs, g, zh, ans]"
  shows "ipa W num_players actions payoffs g zh alpha fuzz ans st = (Ok (- 1), st)"
proof (cases "None \<in> set [actions, payoffs, g, zh, ans]")
  case True
  then show ?thesis by (auto simp: ipa_def)
next
  case False
  then obtain a where a: "actions = Some a" by (cases actions) auto
  from assms(1) a have len: "nat (sint num_players) \<le> length (the_ints st (Some a))" by simp
  from malformed_unfit [OF assms(2) False] a
  have "compute_sizes num_players (Some (the_ints st (Some a))) = Ok None"
    by (intro compute_sizes_rejects len) simp
  with False a show ?thesis by (auto simp: ipa_def ints_at_the_ints)
qed

lemma gnm_rejects:
  assumes "actions = None \<or> nat (sint num_players) \<le> length (the_ints st actions)"
    and "answers = None \<or> ptr_slot st answers"
    and "malformed num_players (take (nat (sint num_players)) (the_ints st actions))
           [actions, payoffs, g, answers]"
  shows "gnm W num_players actions payoffs g answers steps fuzz lnmfreq lnmmax lambdamin wobble
           threshold st = (Ok (- 1), st\<lparr>mem := set_slot answers None (mem st)\<rparr>)"
proof (cases answers)
  case None
  then show ?thesis by (simp add: gnm_def set_slot_def)
next
  case (Some a4)
  with assms(2) obtain oa q where cell: "mem st a4 = Some (oa, PtrCell q)"
    by (auto simp: ptr_slot_def cell_of_def split: option.splits block.splits)
  define st0 where "st0 = st\<lparr>mem := (mem st)(a4 \<mapsto> (oa, PtrCell None))\<rparr>"
  have wr: "write_ptr a4 None st = (Ok (), st0)"
    unfolding st0_def by (rule write_ptr_ok [OF cell])
  have fin: "st\<lparr>mem := set_slot answers None (mem st)\<rparr> = st0"
    by (simp add: st0_def set_slot_def Some cell)
  show ?thesis
  proof (cases "None \<in> set [actions, payoffs, g]")
    case True
    then show ?thesis unfolding fin by (auto simp: gnm_def Some wr)
  next
    case False
    then obtain a where a: "actions = Some a" by (cases actions) auto
    have same: "the_ints st0 (Some a) = the_ints st (Some a)"
      using cell by (auto simp: the_ints_def ints_at_def ints_of_def st0_def)
    from assms(1) a have len: "nat (sint num_players) \<le> length (the_ints st (Some a))" by simp
    from False Some have "None \<notin> set [actions, payoffs, g, answers]" by simp
    from malformed_unfit [OF assms(3) this] a
    have "compute_sizes num_players (Some (the_ints st (Some a))) = Ok None"
      by (intro compute_sizes_rejects len) simp
    with False a show ?thesis unfolding fin by (auto simp: gnm_def Some wr ints_at_the_ints same)
  qed
qed

lemma packed_rows:
  assumes "\<forall>row \<in> set rows. M \<le> length row"
  shows "length (concat (map (take M) rows)) = length rows * M"
    and "k < length rows \<Longrightarrow> i < M \<Longrightarrow> concat (map (take M) rows) ! (k
        * M + i) = rows ! k ! i"
proof -
  show len: "length (concat (map (take M) rows)) = length rows * M"
    using assms by (induction rows) (simp_all add: min_absorb2)
  show "k < length rows \<Longrightarrow> i < M \<Longrightarrow> concat (map (take M) rows) ! (k *
      M + i) = rows ! k ! i"
    using assms
  proof (induction rows arbitrary: k)
    case Nil
    then show ?case by simp
  next
    case (Cons r rows)
    from Cons.prems have lr: "length (take M r) = M" by (simp add: min_absorb2)
    show ?case
    proof (cases k)
      case 0
      with Cons.prems lr show ?thesis by (simp add: nth_append)
    next
      case (Suc j)
      with Cons.prems have j: "j < length rows" by simp
      have "(take M r @ concat (map (take M) rows)) ! (M + (j * M + i)) =
            concat (map (take M) rows) ! (j * M + i)"
        using lr by (simp add: nth_append)
      with Cons.IH [OF j Cons.prems(2)] Cons.prems(3) Suc show ?thesis
        by (simp add: add.assoc)
    qed
  qed
qed

lemma accepted_slot:
  assumes "gnm_accepts st num_players actions payoffs g answers sz"
  shows "\<exists>a oa q. answers = Some a \<and> mem st a = Some (oa, PtrCell q) \<and> a < brk st"
proof -
  from assms obtain a oa q where a: "answers = Some a" "mem st a = Some (oa, PtrCell q)"
    by (auto simp: gnm_accepts_def ptr_slot_def cell_of_def split: option.splits block.splits)
  from assms have "store_ok st" by (simp add: gnm_accepts_def)
  from live_below [OF this a(2)] a show ?thesis by blast
qed

lemma handle_blocks_below: "x < a \<Longrightarrow> (m ++ handle_blocks a rows) x = m x"
  by (simp add: map_add_def handle_blocks_def)

lemma gnm_spec_frame:
  assumes "store_ok st" and "Some x \<noteq> answers" and "x < brk st"
  shows "snd (gnm_spec W st sz actions payoffs g answers steps fuzz lnmfreq lnmmax lambdamin wobble
                threshold) x = mem st x"
proof -
  have "set_slot answers v (mem st) x = mem st x" for v
    using assms(2) by (auto simp: set_slot_def split: option.splits block.splits)
  with assms(3) show ?thesis
    by (auto simp: gnm_spec_def handle_blocks_below split: option.splits gnm_outcome.splits)
qed

lemma gnm_spec_slot:
  fixes W :: "'d world" and st :: "'d store" and sz actions payoffs g steps fuzz lnmfreq lnmmax
    lambdamin wobble threshold
  assumes "mem st a = Some (oa, PtrCell q)" and "a < brk st"
  defines "sp \<equiv> gnm_spec W st sz actions payoffs g (Some a) steps fuzz lnmfreq lnmmax
      lambdamin
                   wobble threshold"
  shows "snd sp a =
           Some (oa, PtrCell (if 0 < sint (fst sp) then Some (brk st + 5 + nat (sint (fst sp)))
                              else None))"
proof -
  have "set_slot (Some a) v (mem st) a = Some (oa, PtrCell v)" for v
    using assms(1) by (simp add: set_slot_def)
  with assms(2) show ?thesis
    unfolding sp_def
    by (auto simp: gnm_spec_def handle_blocks_below error_code_def
        split: option.splits gnm_outcome.splits exn.splits)
qed

lemma gnm_returns_slot:
  fixes st :: "'d store"
  assumes acc: "gnm_accepts st num_players actions payoffs g answers sz"
    and sol: "first_throw W [Acts, Payvec, Nfgame, Gvec] = None \<Longrightarrow> gnm_solver_ok W
        st sz actions payoffs g steps fuzz lnmfreq lnmmax lambdamin wobble threshold"
  defines "sp \<equiv> gnm_spec W st sz actions payoffs g answers steps fuzz lnmfreq lnmmax
      lambdamin wobble threshold"
  shows "\<exists>st' a oa. answers = Some a \<and> a < brk st \<and> gnm W num_players actions
      payoffs g answers steps fuzz lnmfreq lnmmax lambdamin wobble threshold st = (Ok (fst sp),
          st') \<and>
           mem st' = snd sp \<and>
           mem st' a = Some (oa, PtrCell (if 0 < sint (fst sp)
                                            then Some (brk st + 5 + nat (sint (fst sp))) else
                                                None))"
proof -
  from accepted_slot [OF acc] obtain a oa q where
    a: "answers = Some a" "mem st a = Some (oa, PtrCell q)" "a < brk st" by blast
  from gnm_refines [OF acc sol] obtain st' where
    st': "gnm W num_players actions payoffs g answers steps fuzz lnmfreq lnmmax lambdamin wobble
        threshold st = (Ok (fst sp), st')" "mem st' = snd sp"
    unfolding sp_def by blast
  from gnm_spec_slot [OF a(2,3), of W sz actions payoffs g steps fuzz lnmfreq lnmmax lambdamin
      wobble threshold]
  have "mem st' a = Some (oa, PtrCell (if 0 < sint (fst sp)
                                            then Some (brk st + 5 + nat (sint (fst sp))) else
                                                None))"
    unfolding st'(2) sp_def a(1) .
  with a st' show ?thesis by blast
qed

lemma put_dbls_other: "Some x \<noteq> p \<Longrightarrow> put_dbls p n xs m x = m x"
  by (auto simp: put_dbls_def split: option.splits block.splits)

lemma ipa_spec_frame:
  assumes "Some x \<noteq> zh" and "Some x \<noteq> ans"
  shows "snd (ipa_spec W st sz actions payoffs g zh alpha fuzz ans) x = mem st x"
  using assms
  by (auto simp: ipa_spec_def put_dbls_other split: option.splits ipa_outcome.splits)

lemma the_ints_mem: "mem st' a = mem st a \<Longrightarrow> the_ints st' (Some a) = the_ints st
    (Some a)"
  by (simp add: the_ints_def ints_at_def ints_of_def)

lemma the_dbls_mem: "mem st' a = mem st a \<Longrightarrow> the_dbls st' (Some a) = the_dbls st
    (Some a)"
  by (simp add: the_dbls_def dbls_of_def)

lemma ipa_returns_solver_code:
  fixes st :: "'d store"
  assumes acc: "ipa_accepts st num_players actions payoffs g zh ans sz"
    and ft: "first_throw W [Acts, Payvec, Nfgame, Gvec, Zhvec, Ansvec] = None"
    and out: "ipa_solver W st sz actions payoffs g zh alpha fuzz = IPA_returns r gv' zv' av'"
    and len: "nat (sint (sz_M sz)) \<le> length zv'" "nat (sint (sz_M sz)) \<le> length av'"
  shows "\<exists>st'. ipa W num_players actions payoffs g zh alpha fuzz ans st = (Ok r, st') \<and>
           mem st' = put_dbls ans (nat (sint (sz_M sz))) av'
                       (put_dbls zh (nat (sint (sz_M sz))) zv' (mem st))"
proof -
  from out len have "ipa_solver_ok W st sz actions payoffs g zh alpha fuzz"
    by (simp add: ipa_solver_ok_def)
  from ipa_refines [OF acc this] ft out show ?thesis
    by (simp add: ipa_spec_def)
qed

lemma the_dbls_at:
  "mem st a = Some (og, DblArr xs) \<Longrightarrow> the_dbls st (Some a) = xs"
  by (simp add: the_dbls_def dbls_of_def)

lemma poke_dbls:
  assumes "mem st a = Some (og, DblArr old)"
  shows "mem (poke a (DblArr new) st) = (mem st)(a \<mapsto> (og, DblArr new))"
    and "brk (poke a (DblArr new) st) = brk st"
  using assms by (simp_all add: poke_def)

lemma ipa_accepts_poke:
  fixes st :: "'d store"
  assumes acc: "ipa_accepts st num_players actions payoffs g zh (Some a) sz"
    and ne: "Some a \<noteq> payoffs" "Some a \<noteq> g" "Some a \<noteq> zh"
    and len: "nat (sint (sz_M sz)) \<le> length other"
  defines "st2 \<equiv> poke a (DblArr other) st"
  shows "ipa_accepts st2 num_players actions payoffs g zh (Some a) sz"
    and "ipa_solver W st2 sz actions payoffs g zh alpha fuzz =
         ipa_solver W st sz actions payoffs g zh alpha fuzz"
    and "x \<noteq> a \<Longrightarrow> mem st2 x = mem st x"
    and "\<exists>og old. mem st a = Some (og, DblArr old) \<and> mem st2 a = Some (og, DblArr
        other)"
proof -
  from acc have ok: "store_ok st"
    and cs: "compute_sizes num_players (ints_at st actions) = Ok (Some sz)"
    by (simp_all add: ipa_accepts_def)
  from accepted_call [OF cs] obtain a1 o1 src where
    a: "actions = Some a1" "mem st a1 = Some (o1, IntArr src)" by blast
  from acc dbl_bufferD obtain a2 where p: "payoffs = Some a2"
    unfolding ipa_accepts_def by blast
  from acc dbl_bufferD obtain a3 where g: "g = Some a3"
    unfolding ipa_accepts_def by blast
  from acc dbl_bufferD obtain a4 where z: "zh = Some a4"
    unfolding ipa_accepts_def by blast
  from acc dbl_bufferD [of st "Some a"] obtain og old where
    n: "mem st a = Some (og, DblArr old)"
    unfolding ipa_accepts_def by blast
  note pk = poke_dbls [OF n, of other, folded st2_def]
  show other: "mem st2 x = mem st x" if "x \<noteq> a" for x
    using that by (simp add: pk)
  show "\<exists>og old. mem st a = Some (og, DblArr old) \<and> mem st2 a = Some (og, DblArr
      other)"
    using n by (simp add: pk)
  have nea: "a1 \<noteq> a" "a2 \<noteq> a" "a3 \<noteq> a" "a4 \<noteq> a"
    using a n ne p g z by auto
  have ints: "the_ints st2 actions = the_ints st actions"
    unfolding a(1) by (rule the_ints_mem) (rule other [OF nea(1)])
  have dbls: "the_dbls st2 payoffs = the_dbls st payoffs" "the_dbls st2 g = the_dbls st g"
    "the_dbls st2 zh = the_dbls st zh"
    unfolding p g z by (rule the_dbls_mem, rule other, rule nea)+
  show "ipa_solver W st2 sz actions payoffs g zh alpha fuzz =
         ipa_solver W st sz actions payoffs g zh alpha fuzz"
    by (simp add: ipa_solver_def ints dbls pk(2))
  have ok2: "store_ok st2"
    using ok live_below [OF ok n] by (auto simp: store_ok_def pk)
  have ia: "ints_at st2 actions = ints_at st actions"
    using other [OF nea(1)] by (simp add: a(1) ints_at_def ints_of_def)
  have buf: "dbl_buffer st2 q k = dbl_buffer st q k" if "q \<noteq> Some a" for q k
    using that other by (cases q) (auto simp: dbl_buffer_def dbls_of_def)
  have "dbl_buffer st2 (Some a) (nat (sint (sz_M sz)))"
    using len by (simp add: dbl_buffer_def dbls_of_def pk)
  with acc ok2 ia buf [of payoffs] buf [of g] buf [of zh] ne
  show "ipa_accepts st2 num_players actions payoffs g zh (Some a) sz"
    by (auto simp: ipa_accepts_def)
qed

lemma error_code_negative: "sint (error_code e) < 0"
  by (cases e) (simp_all add: error_code_def)


lemma two_calls_accepted:
  fixes st :: "'d store"
  shows
  "ipa_accepts st num_players actions payoffs g zh (Some a) sz \<and>
   ipa_solver_ok W st sz actions payoffs g zh alpha fuzz \<and>
   Some a \<noteq> payoffs \<and> Some a \<noteq> g \<and> Some a \<noteq> zh \<and>
   nat (sint (sz_M sz)) \<le> length other \<longrightarrow>
   (\<exists>c s1 s2.
      ipa W num_players actions payoffs g zh alpha fuzz (Some a) st = (Ok c, s1) \<and>
      ipa W num_players actions payoffs g zh alpha fuzz (Some a) (poke a (DblArr other) st) =
        (Ok c, s2) \<and>
      the_dbls s1 zh = the_dbls s2 zh \<and>
      (0 \<le> sint c \<longrightarrow>
         take (nat (sint (sz_M sz))) (the_dbls s1 (Some a)) =
           take (nat (sint (sz_M sz))) (the_dbls s2 (Some a)) \<and>
         nat (sint (sz_M sz)) \<le> length (the_dbls s1 zh) \<and>
         nat (sint (sz_M sz)) \<le> length (the_dbls s1 (Some a)) \<and>
         (\<exists>gv' zv' av'.
            ipa_solver W st sz actions payoffs g zh alpha fuzz = IPA_returns c gv' zv' av' \<and>
            take (nat (sint (sz_M sz))) (the_dbls s1 zh) = take (nat (sint (sz_M sz))) zv' \<and>
            take (nat (sint (sz_M sz))) (the_dbls s1 (Some a)) =
              take (nat (sint (sz_M sz))) av')))"
proof (intro impI; elim conjE)
  assume acc: "ipa_accepts st num_players actions payoffs g zh (Some a) sz"
    and sol: "ipa_solver_ok W st sz actions payoffs g zh alpha fuzz"
    and ne: "Some a \<noteq> payoffs" "Some a \<noteq> g" "Some a \<noteq> zh"
    and len: "nat (sint (sz_M sz)) \<le> length other"
  define M where "M = nat (sint (sz_M sz))"
  define st2 where "st2 = poke a (DblArr other) st"
  define out where "out = ipa_solver W st sz actions payoffs g zh alpha fuzz"
  note pk =
    ipa_accepts_poke(1) [OF acc ne len, folded st2_def]
    ipa_accepts_poke(2) [where W = W and alpha = alpha and fuzz = fuzz, OF acc ne len,
      folded st2_def out_def]
    ipa_accepts_poke(3) [OF acc ne len, folded st2_def]
    ipa_accepts_poke(4) [OF acc ne len, folded st2_def]
  from pk(4) obtain og old where
    n: "mem st a = Some (og, DblArr old)" "mem st2 a = Some (og, DblArr other)" by blast
  from acc dbl_bufferD obtain a4 o4 zv where
    z: "zh = Some a4" "mem st a4 = Some (o4, DblArr zv)" "M \<le> length zv"
    unfolding ipa_accepts_def M_def by blast
  from ne(3) z(1) have ne4: "a4 \<noteq> a" by auto
  from pk(3) [OF ne4] z(2) have z2: "mem st2 a4 = Some (o4, DblArr zv)" by simp
  from acc have lo: "M \<le> length old"
    using n(1) by (simp add: ipa_accepts_def dbl_buffer_def dbls_of_def M_def)
  have sol2: "ipa_solver_ok W st2 sz actions payoffs g zh alpha fuzz"
    using sol unfolding ipa_solver_ok_def pk(2) out_def .
  from ipa_refines [OF acc sol] obtain s1 where
    r1: "ipa W num_players actions payoffs g zh alpha fuzz (Some a) st =
           (Ok (fst (ipa_spec W st sz actions payoffs g zh alpha fuzz (Some a))), s1)"
    and m1: "mem s1 = snd (ipa_spec W st sz actions payoffs g zh alpha fuzz (Some a))"
    by blast
  from ipa_refines [OF pk(1) sol2] obtain s2 where
    r2: "ipa W num_players actions payoffs g zh alpha fuzz (Some a) st2 =
           (Ok (fst (ipa_spec W st2 sz actions payoffs g zh alpha fuzz (Some a))), s2)"
    and m2: "mem s2 = snd (ipa_spec W st2 sz actions payoffs g zh alpha fuzz (Some a))"
    by blast
  have same: "ipa_solver W st2 sz actions payoffs g zh alpha fuzz = out"
    by (rule pk(2))
  show "(\<exists>c s1 s2.
      ipa W num_players actions payoffs g zh alpha fuzz (Some a) st = (Ok c, s1) \<and>
      ipa W num_players actions payoffs g zh alpha fuzz (Some a) st2 = (Ok c, s2) \<and>
      the_dbls s1 zh = the_dbls s2 zh \<and>
      (0 \<le> sint c \<longrightarrow>
         take (M) (the_dbls s1 (Some a)) =
           take (M) (the_dbls s2 (Some a)) \<and>
         M \<le> length (the_dbls s1 zh) \<and>
         M \<le> length (the_dbls s1 (Some a)) \<and>
         (\<exists>gv' zv' av'.
            out = IPA_returns c gv' zv' av' \<and>
            take (M) (the_dbls s1 zh) = take (M) zv' \<and>
            take (M) (the_dbls s1 (Some a)) =
              take (M) av')))"
  proof (cases "ipa_raises W st sz actions payoffs g zh alpha fuzz")
    case (Some e)
    then have sp1: "ipa_spec W st sz actions payoffs g zh alpha fuzz (Some a) =
        (error_code e, mem st)"
      by (auto simp: ipa_raises_def ipa_spec_def split: option.splits ipa_outcome.splits)
    from Some have sp2: "ipa_spec W st2 sz actions payoffs g zh alpha fuzz (Some a) =
        (error_code e, mem st2)"
      by (auto simp: ipa_raises_def ipa_spec_def same out_def
          split: option.splits ipa_outcome.splits)
    have "mem s1 a4 = Some (o4, DblArr zv)" "mem s2 a4 = Some (o4, DblArr zv)"
      unfolding m1 m2 sp1 sp2 using z(2) z2 by simp_all
    then have "the_dbls s1 zh = zv" "the_dbls s2 zh = zv"
      unfolding z(1) by (simp_all add: the_dbls_at)
    then have "the_dbls s1 zh = the_dbls s2 zh" by simp
    with r1 r2 error_code_negative [of e] show ?thesis
      unfolding sp1 sp2 st2_def [symmetric] by fastforce
  next
    case None
    then obtain r gv' zv' av' where ft: "first_throw W [Acts, Payvec, Nfgame, Gvec, Zhvec, Ansvec]
        = None"
      and out: "out = IPA_returns r gv' zv' av'"
      by (auto simp: ipa_raises_def out_def split: option.splits ipa_outcome.splits)
    from sol out have lens: "M \<le> length zv'" "M \<le> length av'"
      by (simp_all add: ipa_solver_ok_def out_def [symmetric] M_def)
    have sp1: "ipa_spec W st sz actions payoffs g zh alpha fuzz (Some a) =
        (r, put_dbls (Some a) M av' (put_dbls zh M zv' (mem st)))"
      using ft out by (simp add: ipa_spec_def out_def [symmetric] M_def)
    have sp2: "ipa_spec W st2 sz actions payoffs g zh alpha fuzz (Some a) =
        (r, put_dbls (Some a) M av' (put_dbls zh M zv' (mem st2)))"
      using ft out by (simp add: ipa_spec_def same M_def)
    have z1: "mem s1 a4 = Some (o4, DblArr (take M zv' @ drop M zv))"
      and z2': "mem s2 a4 = Some (o4, DblArr (take M zv' @ drop M zv))"
      and a1: "mem s1 a = Some (og, DblArr (take M av' @ drop M old))"
      and a2: "mem s2 a = Some (og, DblArr (take M av' @ drop M other))"
      unfolding m1 m2 sp1 sp2 using ne4 z(2) z2 n by (simp_all add: put_dbls_def z(1))
    have d: "the_dbls s1 zh = take M zv' @ drop M zv" "the_dbls s2 zh = take M zv' @ drop M zv"
      "the_dbls s1 (Some a) = take M av' @ drop M old"
      "the_dbls s2 (Some a) = take M av' @ drop M other"
      unfolding z(1) using z1 z2' a1 a2 by (simp_all add: the_dbls_at)
    have "the_dbls s1 zh = the_dbls s2 zh" by (simp add: d)
    moreover have "take M (the_dbls s1 (Some a)) = take M (the_dbls s2 (Some a))"
      using lens by (simp add: d)
    moreover have "M \<le> length (the_dbls s1 zh)" "M \<le> length (the_dbls s1 (Some a))"
      using lens z(3) lo by (simp_all add: d)
    moreover have "take M (the_dbls s1 zh) = take M zv'"
      "take M (the_dbls s1 (Some a)) = take M av'"
      using lens by (simp_all add: d)
    ultimately show ?thesis
      using r1 r2 out unfolding sp1 sp2 st2_def [symmetric] M_def [symmetric] out_def [symmetric]
      by fastforce
  qed
qed

lemma two_calls_rejected:
  fixes st :: "'d store"
  assumes n: "mem st a = Some (og, DblArr old)" and ne: "Some a \<noteq> zh"
    and rd: "actions = None \<or> nat (sint num_players) \<le> length (the_ints st actions)"
    and bad: "malformed num_players (take (nat (sint num_players)) (the_ints st actions))
      [actions, payoffs, g, zh, Some a]"
  shows "ipa W num_players actions payoffs g zh alpha fuzz (Some a) st = (Ok (- 1), st)"
    and "ipa W num_players actions payoffs g zh alpha fuzz (Some a) (poke a (DblArr other) st) =
      (Ok (- 1), poke a (DblArr other) st)"
    and "the_dbls st zh = the_dbls (poke a (DblArr other) st) zh"
proof -
  define st2 where "st2 = poke a (DblArr other) st"
  note pk = poke_dbls [OF n, of other, folded st2_def]
  have ints: "the_ints st2 p = the_ints st p" for p
    using n by (cases p) (auto simp: the_ints_def ints_at_def ints_of_def pk)
  show "ipa W num_players actions payoffs g zh alpha fuzz (Some a) st = (Ok (- 1), st)"
    using rd bad by (rule ipa_rejects)
  show "ipa W num_players actions payoffs g zh alpha fuzz (Some a) (poke a (DblArr other) st) =
      (Ok (- 1), poke a (DblArr other) st)"
    unfolding st2_def [symmetric] using rd bad by (intro ipa_rejects) (simp_all add: ints)
  show "the_dbls st zh = the_dbls (poke a (DblArr other) st) zh"
    unfolding st2_def [symmetric] using ne
    by (cases zh) (auto simp: the_dbls_def dbls_of_def pk)
qed

subsection \<open>The sample calls\<close>

lemma overflow_ints: "the_ints overflow_store (Some 10) = [65536, 65536]"
  by (simp add: overflow_store_def sample_store_def the_ints_def ints_at_def ints_of_def)

lemma overflow_slot: "ptr_slot overflow_store (Some 15)"
  by (simp add: overflow_store_def sample_store_def ptr_slot_def cell_of_def)

lemma overflow_malformed: "malformed 2 [65536, 65536] ptrs"
  by (simp add: malformed_def profile_count_def INT_MAX_def)

lemma sample_store_ok:
  "store_ok (sample_store\<lparr>mem := (mem sample_store)(14 \<mapsto> v)\<rparr>)" "store_ok sample_store"
  by (auto simp: store_ok_def sample_store_def)

lemma sample_compute_sizes:
  "compute_sizes 2 (ints_at sample_store (Some 10)) = Ok (Some sample_sizes)"
  by (simp add: ints_at_def ints_of_def sample_store_def sample_sizes_def compute_sizes_def
      sizes_loop.simps INT_MAX_def Let_def)

lemma sample_ipa_accepts:
  "ipa_accepts sample_store 2 (Some 10) (Some 11) (Some 12) (Some 13) (Some 14) sample_sizes"
  unfolding ipa_accepts_def
  by (intro conjI sample_store_ok sample_compute_sizes)
     (simp_all add: dbl_buffer_def dbls_of_def sample_store_def sample_sizes_def)

lemma sample_gnm_accepts:
  "gnm_accepts sample_store 2 (Some 10) (Some 11) (Some 12) (Some 15) sample_sizes"
  unfolding gnm_accepts_def
  by (intro conjI sample_store_ok sample_compute_sizes)
     (simp_all add: dbl_buffer_def dbls_of_def ptr_slot_def cell_of_def sample_store_def
        sample_sizes_def)

lemma sample_args:
  "the_ints sample_store (Some 10) = [3, 2]"
  "the_dbls sample_store (Some 11) = [3, 2, 0, 3, 5, 6, 3, 2, 3, 2, 6, 1]"
  "the_dbls sample_store (Some 12) = [0, 0, 1, 0, 1]"
  "the_dbls sample_store (Some 13) = [1, 1, 1, 1, 1]"
  "the_dbls sample_store (Some 14) = [7, 7, 7, 7, 7]"
  "brk sample_store = 16"
  by (simp_all add: the_ints_def the_dbls_def ints_at_def ints_of_def dbls_of_def sample_store_def)

lemma sample_sizes_sel:
  "sint (sz_N sample_sizes) = 2" "sint (sz_M sample_sizes) = 5"
  "sint (sz_payoff_len sample_sizes) = 12" "sz_N sample_sizes = 2"
  by (simp_all add: sample_sizes_def)

lemma sample_gnm_solver:
  "gnm_solver (sample_world r k) sample_store sample_sizes (Some 10) (Some 11) (Some 12) steps fuzz
     lnmfreq lnmmax lambdamin wobble threshold =
   GNM_returns k [0, 0, - 1, 0, - 1] (Some (take (nat (sint k)) [[1, 0, 0, 1, 0], [0, 1, 0, 0,
       1]]))"
  by (simp add: gnm_solver_def sample_world_def sample_args sample_sizes_sel)

lemma sample_gnm_solver_ok:
  "sint k \<le> 2 \<Longrightarrow>
   gnm_solver_ok (sample_world r k) sample_store sample_sizes (Some 10) (Some 11) (Some 12) steps
       fuzz
     lnmfreq lnmmax lambdamin wobble threshold"
  by (auto simp: gnm_solver_ok_def sample_gnm_solver sample_sizes_sel list_all_iff min_def
      dest!: in_set_takeD)

lemma sample_world_sel:
  "ctor_throws (sample_world r k) = (\<lambda>s. None)" "malloc_fails (sample_world r k) = False"
  by (simp_all add: sample_world_def)

lemma sample_ipa_solver:
  "ipa_solver (sample_world r k) sample_store sample_sizes (Some 10) (Some 11) (Some 12) (Some 13)
     alpha fuzz =
   IPA_returns r [0, 0, 1, 0, 1] [2, 2, 2, 2, 2] [1, 0, 1, 0, 0]"
  by (simp add: ipa_solver_def sample_world_def sample_args sample_sizes_sel)

lemma sample_ipa_solver_ok:
  "ipa_solver_ok (sample_world r k) sample_store sample_sizes (Some 10) (Some 11) (Some 12)
     (Some 13) alpha fuzz"
  by (simp add: ipa_solver_ok_def sample_ipa_solver sample_sizes_sel)

lemma sample_ipa_run:
  "\<exists>st'. ipa (sample_world r k) 2 (Some 10) (Some 11) (Some 12) (Some 13) alpha fuzz (Some
      14)
           sample_store = (Ok r, st') \<and>
         the_dbls st' (Some 13) = [2, 2, 2, 2, 2] \<and> the_dbls st' (Some 14) = [1, 0, 1, 0, 0]"
proof -
  from ipa_returns_solver_code [OF sample_ipa_accepts _ sample_ipa_solver, of r k alpha fuzz]
  obtain st' where
    run: "ipa (sample_world r k) 2 (Some 10) (Some 11) (Some 12) (Some 13) alpha fuzz (Some 14)
           sample_store = (Ok r, st')"
    and m: "mem st' = put_dbls (Some 14) 5 [1, 0, 1, 0, 0]
                        (put_dbls (Some 13) 5 [2, 2, 2, 2, 2] (mem sample_store))"
    by (auto simp: sample_world_sel sample_sizes_sel)
  have "mem st' 13 = Some (by_caller, DblArr [2, 2, 2, 2, 2])"
    "mem st' 14 = Some (by_caller, DblArr [1, 0, 1, 0, 0])"
    unfolding m by (simp_all add: put_dbls_def sample_store_def)
  then have "the_dbls st' (Some 13) = [2, 2, 2, 2, 2]" "the_dbls st' (Some 14) = [1, 0, 1, 0, 0]"
    by (simp_all add: the_dbls_at)
  with run show ?thesis by blast
qed

lemma second_ipa_accepts:
  "ipa_accepts second_store 2 (Some 10) (Some 11) (Some 12) (Some 13) (Some 14) sample_sizes"
  unfolding second_store_def
  by (rule ipa_accepts_poke(1) [OF sample_ipa_accepts]) (simp_all add: sample_sizes_sel)

lemma second_ans: "the_dbls second_store (Some 14) = [9, 9, 9, 9, 9]"
  by (simp add: second_store_def poke_def sample_store_def the_dbls_def dbls_of_def)

lemma nomem_run:
  assumes "ipa_accepts st 2 (Some 10) (Some 11) (Some 12) (Some 13) (Some 14) sample_sizes"
  shows "fst (ipa nomem_world 2 (Some 10) (Some 11) (Some 12) (Some 13) 0 0 (Some 14) st) = Ok (-
      2)"
    and "the_dbls (snd (ipa nomem_world 2 (Some 10) (Some 11) (Some 12) (Some 13) 0 0 (Some 14)
        st)) p = the_dbls st p"
proof -
  have ft: "first_throw nomem_world [Acts, Payvec, Nfgame, Gvec, Zhvec, Ansvec] = Some bad_alloc"
    by (simp add: nomem_world_def sample_world_def)
  from ipa_refines [OF assms, of nomem_world 0 0] ft obtain st' where
    run: "ipa nomem_world 2 (Some 10) (Some 11) (Some 12) (Some 13) 0 0 (Some 14) st = (Ok (- 2),
        st')" and m: "mem st' = mem st"
    by (auto simp: ipa_spec_def error_code_def)
  show "fst (ipa nomem_world 2 (Some 10) (Some 11) (Some 12) (Some 13) 0 0 (Some 14) st) = Ok (- 2)"
    by (simp add: run)
  show "the_dbls (snd (ipa nomem_world 2 (Some 10) (Some 11) (Some 12) (Some 13) 0 0 (Some 14) st))
      p = the_dbls st p"
    using m by (cases p) (simp_all add: run the_dbls_def dbls_of_def)
qed

lemma no_players_run:
  "ipa W 0 (Some 10) (Some 11) (Some 12) (Some 13) 0 0 (Some 14) st = (Ok (- 1), st)"
  by (rule ipa_rejects) (simp_all add: malformed_def)


lemma sample_fits:
  "nat (sint (1 :: c_int)) \<le> length [4 :: c_int] \<and>
   sizes_fit 1 (take (nat (sint (1 :: c_int))) [4])"
  "nat (sint (3 :: c_int)) \<le> length [2, 3, 4, 0 :: c_int] \<and>
   sizes_fit 3 (take (nat (sint (3 :: c_int))) [2, 3, 4, 0])"
  "nat (sint (2 :: c_int)) \<le> length [65536, 65536 :: c_int] \<and>
   \<not> sizes_fit 2 (take (nat (sint (2 :: c_int))) [65536, 65536])"
  by (simp_all add: sizes_fit_def total_actions_def profile_count_def INT_MAX_def)

lemma sample_totals:
  "total_actions (take (nat (sint (1 :: c_int))) [4]) = 4"
  "profile_count (take (nat (sint (1 :: c_int))) [4]) = 4"
  "total_actions (take (nat (sint (3 :: c_int))) [2, 3, 4, 0]) = 9"
  "profile_count (take (nat (sint (3 :: c_int))) [2, 3, 4, 0]) = 24"
  "total_actions [3, 2] = 5" "profile_count [3, 2] = 6"
  by (simp_all add: total_actions_def profile_count_def)

section \<open>The claims\<close>




text \<open>
  C2. A call of \<^verbatim>\<open>ipa\<close> or \<^verbatim>\<open>gnm\<close> whose player count is not positive, or one of whose
  required pointers is null, or one of whose first \<open>num_players\<close> action counts is not
  positive, or whose \<open>M\<close>, \<open>P\<close> or \<open>N * P\<close> exceeds \<^verbatim>\<open>INT_MAX\<close>, returns \<open>-1\<close>; \<^verbatim>\<open>ipa\<close>
  leaves the whole store as it was, \<^verbatim>\<open>gnm\<close> only nulls the caller's result pointer: no
  allocation is requested and the solver is not called. (The action-count array, when
  given, holds at least \<open>num_players\<close> counts, and \<open>answers\<close>, when given, is the address
  of a pointer variable.)
\<close>

theorem validation_failure:
  "((actions = None \<or> nat (sint num_players) \<le> length (the_ints st actions)) \<and>
    malformed num_players (take (nat (sint num_players)) (the_ints st actions))
      [actions, payoffs, g, zh, ans] \<longrightarrow>
    ipa W num_players actions payoffs g zh alpha fuzz ans st = (Ok (- 1), st)) \<and>
   ((actions = None \<or> nat (sint num_players) \<le> length (the_ints st actions)) \<and>
    (answers = None \<or> ptr_slot st answers) \<and>
    malformed num_players (take (nat (sint num_players)) (the_ints st actions))
      [actions, payoffs, g, answers] \<longrightarrow>
    (\<exists>st'. gnm W num_players actions payoffs g answers steps fuzz lnmfreq lnmmax lambdamin
              wobble threshold st = (Ok (- 1), st') \<and>
            allocs st' = allocs st \<and> solver_calls st' = solver_calls st \<and> brk st' = brk st \<and>
            mem st' = set_slot answers None (mem st)))"
  using ipa_rejects [of actions num_players st payoffs g zh ans W alpha fuzz]
    gnm_rejects [of actions num_players st answers payoffs g W steps fuzz lnmfreq lnmmax
      lambdamin wobble threshold]
  by simp

theorem validation_failure_witness:
  "ipa (sample_world 1 2) 2 (Some 10) (Some 11) (Some 12) (Some 13) 0 0 (Some 14) overflow_store =
     (Ok (- 1), overflow_store) \<and>
   fst (gnm (sample_world 1 2) 2 (Some 10) (Some 11) (Some 12) (Some 15) 0 0 0 0 0 0 0 overflow_store) =
     Ok (- 1) \<and>
   allocs (snd (gnm (sample_world 1 2) 2 (Some 10) (Some 11) (Some 12) (Some 15) 0 0 0 0 0 0 0
                  overflow_store)) = 0 \<and>
   solver_calls (snd (gnm (sample_world 1 2) 2 (Some 10) (Some 11) (Some 12) (Some 15) 0 0 0 0 0 0 0
                        overflow_store)) = 0"
  using validation_failure [where actions = "Some 10" and num_players = 2 and st = overflow_store
      and payoffs = "Some 11" and g = "Some 12" and zh = "Some 13" and ans = "Some 14"
      and W = "sample_world 1 2" and alpha = 0 and fuzz = 0 and answers = "Some 15" and steps = 0
      and lnmfreq = 0 and lnmmax = 0 and lambdamin = 0 and wobble = 0 and threshold = 0]
    overflow_malformed overflow_slot
  by (auto simp: overflow_ints) (simp_all add: overflow_store_def sample_store_def)

text \<open>
  C3. In a call of \<^verbatim>\<open>gnm\<close> that passes validation, whenever the return value is not
  positive the caller's result pointer is null afterwards; in particular, when \<^verbatim>\<open>GNM\<close>
  finds no equilibrium, \<^verbatim>\<open>gnm\<close> returns 0 and the result pointer is null. A call that
  validation turns down returns \<open>-1\<close> and the result pointer is null as well.
\<close>

theorem answers_nulled:
  fixes st :: "'d store"
  shows
  "(gnm_accepts st num_players actions payoffs g answers sz \<and> gnm_solver_ok W st sz actions
      payoffs g steps fuzz lnmfreq lnmmax lambdamin wobble threshold \<longrightarrow>
      (\<exists>c st' p. gnm W num_players actions payoffs g answers steps fuzz lnmfreq lnmmax
          lambdamin wobble threshold st = (Ok c, st') \<and> cell_of st' (the answers) = Some p
              \<and>
         (sint c \<le> 0 \<longrightarrow> p = None)) \<and>
      (first_throw W [Acts, Payvec, Nfgame, Gvec] = None \<and> gnm_solver W st sz actions payoffs
          g steps fuzz lnmfreq lnmmax lambdamin wobble threshold = GNM_returns 0 gv' eq
              \<longrightarrow>
         (\<exists>st'. gnm W num_players actions payoffs g answers steps fuzz lnmfreq lnmmax
             lambdamin wobble threshold st = (Ok 0, st') \<and> cell_of st' (the answers) = Some
                 None))) \<and>
   ((actions = None \<or> nat (sint num_players) \<le> length (the_ints st actions)) \<and>
    ptr_slot st answers \<and>
    malformed num_players (take (nat (sint num_players)) (the_ints st actions))
      [actions, payoffs, g, answers] \<longrightarrow>
      (\<exists>st'. gnm W num_players actions payoffs g answers steps fuzz lnmfreq lnmmax
          lambdamin wobble threshold st = (Ok (- 1), st') \<and> cell_of st' (the answers) = Some
              None))"
proof (intro conjI impI; (elim conjE)?)
  assume acc: "gnm_accepts st num_players actions payoffs g answers sz" and sol: "gnm_solver_ok W
      st sz actions payoffs g steps fuzz lnmfreq lnmmax lambdamin wobble threshold"
  from gnm_returns_slot [OF acc sol] show
    "\<exists>c st' p. gnm W num_players actions payoffs g answers steps fuzz lnmfreq lnmmax
        lambdamin wobble threshold st = (Ok c, st') \<and> cell_of st' (the answers) = Some p \<and>
         (sint c \<le> 0 \<longrightarrow> p = None)"
    by (auto simp: cell_of_def)
  assume "first_throw W [Acts, Payvec, Nfgame, Gvec] = None" "gnm_solver W st sz actions payoffs g
      steps fuzz lnmfreq lnmmax lambdamin wobble threshold = GNM_returns 0 gv' eq"
  then have "fst (gnm_spec W st sz actions payoffs g answers steps fuzz lnmfreq lnmmax lambdamin
      wobble threshold) = 0"
    by (simp add: gnm_spec_def)
  with gnm_returns_slot [OF acc sol] show
    "\<exists>st'. gnm W num_players actions payoffs g answers steps fuzz lnmfreq lnmmax lambdamin
        wobble threshold st = (Ok 0, st') \<and> cell_of st' (the answers) = Some None"
    by (auto simp: cell_of_def)
next
  assume "actions = None \<or> nat (sint num_players) \<le> length (the_ints st actions)"
    and slot: "ptr_slot st answers"
    and "malformed num_players (take (nat (sint num_players)) (the_ints st actions))
      [actions, payoffs, g, answers]"
  with gnm_rejects [of actions num_players st answers payoffs g W steps fuzz lnmfreq lnmmax
      lambdamin wobble threshold]
  have "gnm W num_players actions payoffs g answers steps fuzz lnmfreq lnmmax lambdamin wobble
      threshold st = (Ok (- 1), st\<lparr>mem := set_slot answers None (mem st)\<rparr>)" by simp
  moreover from slot have
    "cell_of (st\<lparr>mem := set_slot answers None (mem st)\<rparr>) (the answers) = Some None"
    by (auto simp: ptr_slot_def cell_of_def set_slot_def split: option.splits block.splits)
  ultimately show "\<exists>st'. gnm W num_players actions payoffs g answers steps fuzz lnmfreq
      lnmmax lambdamin wobble threshold st = (Ok (- 1), st') \<and> cell_of st' (the answers) =
          Some None"
    by blast
qed

theorem answers_nulled_witness:
  "(\<exists>st'. gnm (sample_world 1 0) 2 (Some 10) (Some 11) (Some 12) (Some 15) 0 0 0 0 0 0 0
      sample_store =
            (Ok 0, st') \<and> cell_of st' 15 = Some None) \<and>
   (\<exists>st'. gnm (sample_world 1 0) 2 (Some 10) (Some 11) (Some 12) (Some 15) 0 0 0 0 0 0 0
       overflow_store =
            (Ok (- 1), st') \<and> cell_of st' 15 = Some None)"
  using answers_nulled [where st = sample_store and num_players = 2 and actions = "Some 10"
      and payoffs = "Some 11" and g = "Some 12" and answers = "Some 15" and sz = sample_sizes
      and fuzz = 0 and steps = 0 and lnmfreq = 0 and lnmmax = 0 and lambdamin = 0 and wobble = 0
      and threshold = 0 and W = "sample_world 1 0" and gv' = "[0, 0, - 1, 0, - 1]" and eq = "Some
          []"]
    answers_nulled [where st = overflow_store and num_players = 2 and actions = "Some 10"
      and payoffs = "Some 11" and g = "Some 12" and answers = "Some 15" and W = "sample_world 1 0"
      and fuzz = 0 and steps = 0 and lnmfreq = 0 and lnmmax = 0 and lambdamin = 0 and wobble = 0
      and threshold = 0]
    sample_gnm_accepts sample_gnm_solver_ok [of 0] overflow_malformed overflow_slot
  by (simp add: sample_gnm_solver sample_world_sel overflow_ints)

text \<open>
  C4. When \<^verbatim>\<open>GNM\<close> finds \<open>k > 0\<close> equilibria \<open>rows\<close> and \<^verbatim>\<open>std::malloc\<close> succeeds, \<^verbatim>\<open>gnm\<close>
  returns \<open>k\<close> and the result pointer addresses one fresh block from \<^verbatim>\<open>std::malloc\<close> of
  \<open>k * M\<close> doubles, whose element \<open>row * M + i\<close> is entry \<open>i\<close> of equilibrium \<open>row\<close>.
  Apart from this block and the result pointer, memory is as it was before the call:
  every handle, the array of handles and the copies have been released.
\<close>

theorem equilibria_packed:
  fixes st :: "'d store"
  shows
  "gnm_accepts st num_players actions payoffs g answers sz \<and> gnm_solver_ok W st sz actions
      payoffs g steps fuzz lnmfreq lnmmax lambdamin wobble threshold \<and> first_throw W [Acts,
          Payvec, Nfgame, Gvec] = None \<and>
   gnm_solver W st sz actions payoffs g steps fuzz lnmfreq lnmmax lambdamin wobble threshold =
       GNM_returns k gv' (Some rows) \<and> 0 < sint k \<and> \<not> malloc_fails W
           \<longrightarrow>
   (\<exists>st' blk xs.
      gnm W num_players actions payoffs g answers steps fuzz lnmfreq lnmmax lambdamin wobble
          threshold st = (Ok k, st') \<and>
      cell_of st' (the answers) = Some (Some blk) \<and> mem st blk = None \<and>
      mem st' blk = Some (by_malloc, DblArr xs) \<and>
      xs = concat (map (take (nat (sint (sz_M sz)))) rows) \<and>
      length xs = nat (sint k) * nat (sint (sz_M sz)) \<and>
      (\<forall>row < nat (sint k). \<forall>i < nat (sint (sz_M sz)).
         xs ! (row * nat (sint (sz_M sz)) + i) = rows ! row ! i) \<and>
      (\<forall>x. Some x \<noteq> answers \<and> x \<noteq> blk \<longrightarrow> mem st' x = mem
          st x))"
proof (intro impI; elim conjE)
  assume acc: "gnm_accepts st num_players actions payoffs g answers sz" and sol: "gnm_solver_ok W
      st sz actions payoffs g steps fuzz lnmfreq lnmmax lambdamin wobble threshold" and ft:
          "first_throw W [Acts, Payvec, Nfgame, Gvec] = None"
    and out: "gnm_solver W st sz actions payoffs g steps fuzz lnmfreq lnmmax lambdamin wobble
        threshold = GNM_returns k gv' (Some rows)" and pos: "0 < sint k"
    and mem: "\<not> malloc_fails W"
  define M where "M = nat (sint (sz_M sz))"
  define blk where "blk = brk st + 5 + nat (sint k)"
  define xs where "xs = concat (map (take M) rows)"
  from acc have ok: "store_ok st" by (simp add: gnm_accepts_def)
  from sol out pos have len: "length rows = nat (sint k)"
    and rows: "\<forall>row \<in> set rows. M \<le> length row"
    by (simp_all add: gnm_solver_ok_def list_all_iff M_def)
  from ft out pos mem have sp: "gnm_spec W st sz actions payoffs g answers steps fuzz lnmfreq
      lnmmax lambdamin wobble threshold =
      (k, (set_slot answers (Some blk) (mem st))(blk \<mapsto> (by_malloc, DblArr xs)))"
    by (simp add: gnm_spec_def blk_def xs_def M_def rows_of_def)
  from gnm_returns_slot [OF acc sol] pos obtain st' a oa where
    a: "answers = Some a" "a < brk st" and
    run: "gnm W num_players actions payoffs g answers steps fuzz lnmfreq lnmmax lambdamin wobble
        threshold st = (Ok k, st')" and
    m: "mem st' = (set_slot answers (Some blk) (mem st))(blk \<mapsto> (by_malloc, DblArr xs))" and
    cell: "mem st' a = Some (oa, PtrCell (Some blk))"
    unfolding sp by (auto simp: blk_def)
  have fresh: "mem st blk = None"
    using ok by (simp add: store_ok_def blk_def)
  have frame: "\<forall>x. Some x \<noteq> answers \<and> x \<noteq> blk \<longrightarrow> mem st'
      x = mem st x"
    unfolding m by (auto simp: set_slot_def a(1) split: option.splits block.splits)
  have "cell_of st' (the answers) = Some (Some blk)"
    using cell by (simp add: cell_of_def a(1))
  moreover have "mem st' blk = Some (by_malloc, DblArr xs)" unfolding m by simp
  moreover have "length xs = nat (sint k) * M"
    unfolding xs_def len [symmetric] by (rule packed_rows(1) [OF rows])
  moreover have "\<forall>row < nat (sint k). \<forall>i < M. xs ! (row * M + i) = rows ! row ! i"
    unfolding xs_def len [symmetric] using packed_rows(2) [OF rows] by blast
  ultimately show "\<exists>st' blk xs.
      gnm W num_players actions payoffs g answers steps fuzz lnmfreq lnmmax lambdamin wobble
          threshold st = (Ok k, st') \<and>
      cell_of st' (the answers) = Some (Some blk) \<and> mem st blk = None \<and>
      mem st' blk = Some (by_malloc, DblArr xs) \<and>
      xs = concat (map (take (nat (sint (sz_M sz)))) rows) \<and>
      length xs = nat (sint k) * nat (sint (sz_M sz)) \<and>
      (\<forall>row < nat (sint k). \<forall>i < nat (sint (sz_M sz)).
         xs ! (row * nat (sint (sz_M sz)) + i) = rows ! row ! i) \<and>
      (\<forall>x. Some x \<noteq> answers \<and> x \<noteq> blk \<longrightarrow> mem st' x = mem
          st x)"
    using run fresh frame unfolding M_def [symmetric] xs_def [symmetric] by blast
qed

theorem equilibria_packed_witness:
  "\<exists>st' blk. gnm (sample_world 1 2) 2 (Some 10) (Some 11) (Some 12) (Some 15) 0 0 0 0 0 0 0
      sample_store =
              (Ok 2, st') \<and>
            cell_of st' 15 = Some (Some blk) \<and>
            mem st' blk = Some (by_malloc, DblArr [1, 0, 0, 1, 0, 0, 1, 0, 0, 1])"
  using equilibria_packed [where st = sample_store and num_players = 2 and actions = "Some 10"
      and payoffs = "Some 11" and g = "Some 12" and answers = "Some 15" and sz = sample_sizes
      and fuzz = 0 and steps = 0 and lnmfreq = 0 and lnmmax = 0 and lambdamin = 0 and wobble = 0
      and threshold = 0 and W = "sample_world 1 2" and k = 2 and gv' = "[0, 0, - 1, 0, - 1]"
      and rows = "[[1, 0, 0, 1, 0], [0, 1, 0, 0, 1]]"]
    sample_gnm_accepts sample_gnm_solver_ok [of 2]
  by (simp add: sample_gnm_solver sample_world_sel sample_sizes_sel) blast

text \<open>
  C5. The sample call of \<^verbatim>\<open>ipa\<close> passes validation and no constructor throws; its \<^verbatim>\<open>IPA\<close>
  returns \<open>-7\<close>. Then \<^verbatim>\<open>ipa\<close> returns \<open>-7\<close>: the statement \<^verbatim>\<open>return ret\<close> hands the solver's
  negative value to the caller, where \<^verbatim>\<open>gnm\<close> returns \<open>-3\<close> for a negative count.
\<close>

theorem ipa_passes_negative_through:
  "fst (ipa (sample_world (- 7) 2) 2 (Some 10) (Some 11) (Some 12) (Some 13) 0 0 (Some 14)
          sample_store) = Ok (- 7)"
  using sample_ipa_run [of "- 7" 2 0 0] by auto

text \<open>
  C6. For every player count \<open>N > 0\<close> and every array whose first \<open>N\<close> action counts are
  positive with \<open>M = \<Sum> actions[p]\<close>, \<open>P = \<Prod> actions[p]\<close> and \<open>N * P\<close> within \<^verbatim>\<open>INT_MAX\<close>,
  \<^verbatim>\<open>compute_sizes\<close> accepts and writes exactly \<open>N\<close>, \<open>M\<close>, \<open>P\<close> and the payoff length
  \<open>N * P\<close>; on every other input whose array holds \<open>N\<close> counts it returns \<^verbatim>\<open>false\<close>.
  Conversely, whatever it accepts has a positive player count, positive action counts
  and exactly these sizes. For two players with action counts 3 and 2 it accepts with
  \<open>M = 5\<close>, \<open>P = 6\<close> and payoff length 12.
\<close>

theorem compute_sizes_exact:
  "(nat (sint num_players) \<le> length actions \<and>
    sizes_fit num_players (take (nat (sint num_players)) actions) \<longrightarrow>
      (\<exists>sz. compute_sizes num_players (Some actions) = Ok (Some sz) \<and>
         sz_N sz = num_players \<and>
         sint (sz_M sz) = total_actions (take (nat (sint num_players)) actions) \<and>
         sint (sz_P sz) = profile_count (take (nat (sint num_players)) actions) \<and>
         sint (sz_payoff_len sz) =
           sint num_players * profile_count (take (nat (sint num_players)) actions))) \<and>
   (nat (sint num_players) \<le> length actions \<and>
    \<not> sizes_fit num_players (take (nat (sint num_players)) actions) \<longrightarrow>
      compute_sizes num_players (Some actions) = Ok None) \<and>
   (compute_sizes num_players (Some actions) = Ok (Some sz) \<longrightarrow>
      0 < sint num_players \<and>
      (\<forall>a \<in> set (take (nat (sint num_players)) actions). 0 < sint a) \<and>
      sz_N sz = num_players \<and>
      sint (sz_M sz) = total_actions (take (nat (sint num_players)) actions) \<and>
      sint (sz_P sz) = profile_count (take (nat (sint num_players)) actions) \<and>
      sint (sz_payoff_len sz) =
        sint num_players * profile_count (take (nat (sint num_players)) actions)) \<and>
   compute_sizes 2 (Some [3, 2]) =
     Ok (Some \<lparr>sz_N = 2, sz_M = 5, sz_P = 6, sz_payoff_len = 12\<rparr>)"
proof (intro conjI impI; (elim conjE)?)
  show "compute_sizes 2 (Some [3, 2]) =
     Ok (Some \<lparr>sz_N = 2, sz_M = 5, sz_P = 6, sz_payoff_len = 12\<rparr>)"
    by (simp add: compute_sizes_def sizes_loop.simps INT_MAX_def Let_def)
next
  assume len: "nat (sint num_players) \<le> length actions"
    and fit: "sizes_fit num_players (take (nat (sint num_players)) actions)"
  from compute_sizes_accepts [OF len fit] obtain sz' where
    acc: "compute_sizes num_players (Some actions) = Ok (Some sz')" by blast
  from compute_sizes_Some [OF acc] acc show
    "\<exists>sz. compute_sizes num_players (Some actions) = Ok (Some sz) \<and>
         sz_N sz = num_players \<and>
         sint (sz_M sz) = total_actions (take (nat (sint num_players)) actions) \<and>
         sint (sz_P sz) = profile_count (take (nat (sint num_players)) actions) \<and>
         sint (sz_payoff_len sz) =
           sint num_players * profile_count (take (nat (sint num_players)) actions)"
    by simp
next
  assume "nat (sint num_players) \<le> length actions"
    "\<not> sizes_fit num_players (take (nat (sint num_players)) actions)"
  then show "compute_sizes num_players (Some actions) = Ok None"
    by (rule compute_sizes_rejects)
qed (use compute_sizes_Some [of num_players actions sz] in \<open>simp_all add: sizes_fit_def\<close>)

theorem compute_sizes_exact_witness:
  "(\<exists>sz. compute_sizes 1 (Some [4]) = Ok (Some sz) \<and> sz_N sz = 1 \<and> sint (sz_M sz) = 4 \<and>
      sint (sz_P sz) = 4 \<and> sint (sz_payoff_len sz) = 4) \<and>
   (\<exists>sz. compute_sizes 3 (Some [2, 3, 4, 0]) = Ok (Some sz) \<and> sz_N sz = 3 \<and>
      sint (sz_M sz) = 9 \<and> sint (sz_P sz) = 24 \<and> sint (sz_payoff_len sz) = 72) \<and>
   compute_sizes 2 (Some [65536, 65536]) = Ok None \<and>
   compute_sizes 2 (Some [3, 2]) =
     Ok (Some \<lparr>sz_N = 2, sz_M = 5, sz_P = 6, sz_payoff_len = 12\<rparr>) \<and>
   total_actions [3, 2] = 5 \<and> profile_count [3, 2] = 6"
proof (intro conjI)
  from compute_sizes_exact [of 1 "[4]", THEN conjunct1, rule_format, OF sample_fits(1)]
  show "\<exists>sz. compute_sizes 1 (Some [4]) = Ok (Some sz) \<and> sz_N sz = 1 \<and> sint (sz_M sz) = 4 \<and>
      sint (sz_P sz) = 4 \<and> sint (sz_payoff_len sz) = 4"
    unfolding sample_totals by simp
  from compute_sizes_exact [of 3 "[2, 3, 4, 0]", THEN conjunct1, rule_format, OF sample_fits(2)]
  show "\<exists>sz. compute_sizes 3 (Some [2, 3, 4, 0]) = Ok (Some sz) \<and> sz_N sz = 3 \<and>
      sint (sz_M sz) = 9 \<and> sint (sz_P sz) = 24 \<and> sint (sz_payoff_len sz) = 72"
    unfolding sample_totals by simp
  from compute_sizes_exact [of 2 "[65536, 65536]", THEN conjunct2, THEN conjunct1, rule_format,
      OF sample_fits(3)]
  show "compute_sizes 2 (Some [65536, 65536]) = Ok None" .
  from compute_sizes_exact [of 2 "[3, 2]", THEN conjunct2, THEN conjunct2, THEN conjunct2]
  show "compute_sizes 2 (Some [3, 2]) =
     Ok (Some \<lparr>sz_N = 2, sz_M = 5, sz_P = 6, sz_payoff_len = 12\<rparr>)" .
qed (simp_all add: sample_totals)

text \<open>
  C7. A call of \<^verbatim>\<open>ipa\<close> that passes validation changes no block of memory but those of
  \<open>zh\<close> and \<open>ans\<close>: the action counts are as before, and so are the payoffs and the ray
  \<open>g\<close> unless the caller passed the same array as \<open>zh\<close> or \<open>ans\<close>. A call of \<^verbatim>\<open>gnm\<close> that
  passes validation changes no block that existed before the call but the result
  pointer: action counts, payoffs and ray are as before. A call that validation turns
  down changes nothing (\<^verbatim>\<open>ipa\<close>) or only the result pointer (\<^verbatim>\<open>gnm\<close>).
\<close>

theorem inputs_unchanged:
  fixes st :: "'d store"
  shows
  "(ipa_accepts st num_players actions payoffs g zh ans sz \<and>
    ipa_solver_ok W st sz actions payoffs g zh alpha fuzz \<longrightarrow>
      (\<exists>c st'. ipa W num_players actions payoffs g zh alpha fuzz ans st = (Ok c, st') \<and>
         (\<forall>x. Some x \<noteq> zh \<and> Some x \<noteq> ans \<longrightarrow> mem st' x =
             mem st x) \<and>
         the_ints st' actions = the_ints st actions \<and>
         (payoffs \<noteq> zh \<and> payoffs \<noteq> ans \<longrightarrow> the_dbls st' payoffs =
             the_dbls st payoffs) \<and>
         (g \<noteq> zh \<and> g \<noteq> ans \<longrightarrow> the_dbls st' g = the_dbls st g)))
             \<and>
   (gnm_accepts st num_players actions payoffs g answers sz \<and>
    gnm_solver_ok W st sz actions payoffs g steps fuzz' lnmfreq lnmmax lambdamin wobble
      threshold \<longrightarrow>
      (\<exists>c st'. gnm W num_players actions payoffs g answers steps fuzz' lnmfreq lnmmax
          lambdamin
                  wobble threshold st = (Ok c, st') \<and>
         (\<forall>x. Some x \<noteq> answers \<and> x < brk st \<longrightarrow> mem st' x = mem
             st x) \<and>
         the_ints st' actions = the_ints st actions \<and>
         the_dbls st' payoffs = the_dbls st payoffs \<and>
         the_dbls st' g = the_dbls st g)) \<and>
   ((actions = None \<or> nat (sint num_players) \<le> length (the_ints st actions)) \<and>
    malformed num_players (take (nat (sint num_players)) (the_ints st actions))
      [actions, payoffs, g, zh, ans] \<longrightarrow>
      ipa W num_players actions payoffs g zh alpha fuzz ans st = (Ok (- 1), st)) \<and>
   ((actions = None \<or> nat (sint num_players) \<le> length (the_ints st actions)) \<and>
    (answers = None \<or> ptr_slot st answers) \<and>
    malformed num_players (take (nat (sint num_players)) (the_ints st actions))
      [actions, payoffs, g, answers] \<longrightarrow>
      (\<exists>st'. gnm W num_players actions payoffs g answers steps fuzz' lnmfreq lnmmax
          lambdamin
                wobble threshold st = (Ok (- 1), st') \<and>
         (\<forall>x. Some x \<noteq> answers \<longrightarrow> mem st' x = mem st x)))"
proof (intro conjI impI; (elim conjE)?)
  assume acc: "ipa_accepts st num_players actions payoffs g zh ans sz"
    and sol: "ipa_solver_ok W st sz actions payoffs g zh alpha fuzz"
  from ipa_refines [OF acc sol] obtain st' where
    run: "ipa W num_players actions payoffs g zh alpha fuzz ans st =
            (Ok (fst (ipa_spec W st sz actions payoffs g zh alpha fuzz ans)), st')"
    and m: "mem st' = snd (ipa_spec W st sz actions payoffs g zh alpha fuzz ans)"
    by blast
  have frame: "\<forall>x. Some x \<noteq> zh \<and> Some x \<noteq> ans \<longrightarrow> mem st'
      x = mem st x"
    unfolding m by (simp add: ipa_spec_frame)
  from acc have cs: "compute_sizes num_players (ints_at st actions) = Ok (Some sz)"
    by (simp add: ipa_accepts_def)
  from accepted_call [OF cs] obtain a1 o1 src where
    a: "actions = Some a1" "mem st a1 = Some (o1, IntArr src)" by blast
  from acc dbl_bufferD obtain a2 where p: "payoffs = Some a2"
    unfolding ipa_accepts_def by blast
  from acc dbl_bufferD obtain a3 where g: "g = Some a3"
    unfolding ipa_accepts_def by blast
  from acc dbl_bufferD obtain a4 o4 zv where z: "zh = Some a4" "mem st a4 = Some (o4, DblArr zv)"
    unfolding ipa_accepts_def by blast
  from acc dbl_bufferD obtain a5 o5 av where n: "ans = Some a5" "mem st a5 = Some (o5, DblArr av)"
    unfolding ipa_accepts_def by blast
  from a z n have "Some a1 \<noteq> zh" "Some a1 \<noteq> ans" by auto
  with frame have "mem st' a1 = mem st a1" by blast
  then have ints: "the_ints st' actions = the_ints st actions"
    unfolding a(1) by (rule the_ints_mem)
  have pay: "the_dbls st' payoffs = the_dbls st payoffs" if "payoffs \<noteq> zh \<and> payoffs
      \<noteq> ans"
    unfolding p using frame that p by (intro the_dbls_mem) auto
  have ray: "the_dbls st' g = the_dbls st g" if "g \<noteq> zh \<and> g \<noteq> ans"
    unfolding g using frame that g by (intro the_dbls_mem) auto
  from run frame ints pay ray show
    "\<exists>c st'. ipa W num_players actions payoffs g zh alpha fuzz ans st = (Ok c, st') \<and>
         (\<forall>x. Some x \<noteq> zh \<and> Some x \<noteq> ans \<longrightarrow> mem st' x =
             mem st x) \<and>
         the_ints st' actions = the_ints st actions \<and>
         (payoffs \<noteq> zh \<and> payoffs \<noteq> ans \<longrightarrow> the_dbls st' payoffs =
             the_dbls st payoffs) \<and>
         (g \<noteq> zh \<and> g \<noteq> ans \<longrightarrow> the_dbls st' g = the_dbls st g)"
    by blast
next
  assume acc: "gnm_accepts st num_players actions payoffs g answers sz"
    and sol: "gnm_solver_ok W st sz actions payoffs g steps fuzz' lnmfreq lnmmax lambdamin wobble
      threshold"
  from acc have ok: "store_ok st"
    and cs: "compute_sizes num_players (ints_at st actions) = Ok (Some sz)"
    by (simp_all add: gnm_accepts_def)
  from gnm_refines [OF acc sol] obtain c st' where
    run: "gnm W num_players actions payoffs g answers steps fuzz' lnmfreq lnmmax lambdamin
                  wobble threshold st = (Ok c, st')"
    and m: "mem st' = snd (gnm_spec W st sz actions payoffs g answers steps fuzz' lnmfreq lnmmax
                           lambdamin wobble threshold)"
    by blast
  have frame: "\<forall>x. Some x \<noteq> answers \<and> x < brk st \<longrightarrow> mem st' x =
      mem st x"
    unfolding m using gnm_spec_frame [OF ok] by blast
  from accepted_call [OF cs] obtain a1 o1 src where
    a: "actions = Some a1" "mem st a1 = Some (o1, IntArr src)" by blast
  from acc dbl_bufferD obtain a2 o2 pay where
    p: "payoffs = Some a2" "mem st a2 = Some (o2, DblArr pay)"
    unfolding gnm_accepts_def by blast
  from acc dbl_bufferD obtain a3 o3 gv where g: "g = Some a3" "mem st a3 = Some (o3, DblArr gv)"
    unfolding gnm_accepts_def by blast
  from accepted_slot [OF acc] obtain a4 oa q where
    n: "answers = Some a4" "mem st a4 = Some (oa, PtrCell q)" by blast
  have lt: "a1 < brk st" "a2 < brk st" "a3 < brk st"
    using a(2) p(2) g(2) by (auto intro: live_below [OF ok])
  have ne: "Some a1 \<noteq> answers" "Some a2 \<noteq> answers" "Some a3 \<noteq> answers"
    using a(2) p(2) g(2) n by auto
  have "mem st' a1 = mem st a1" "mem st' a2 = mem st a2" "mem st' a3 = mem st a3"
    using frame lt(1) ne(1) apply blast
    using frame lt(2) ne(2) apply blast
    using frame lt(3) ne(3) apply blast
    done
  then have "the_ints st' actions = the_ints st actions"
    "the_dbls st' payoffs = the_dbls st payoffs" "the_dbls st' g = the_dbls st g"
    unfolding a(1) p(1) g(1) by (auto intro: the_ints_mem the_dbls_mem)
  with run frame show
    "\<exists>c st'. gnm W num_players actions payoffs g answers steps fuzz' lnmfreq lnmmax
        lambdamin
                  wobble threshold st = (Ok c, st') \<and>
         (\<forall>x. Some x \<noteq> answers \<and> x < brk st \<longrightarrow> mem st' x = mem
             st x) \<and>
         the_ints st' actions = the_ints st actions \<and>
         the_dbls st' payoffs = the_dbls st payoffs \<and>
         the_dbls st' g = the_dbls st g"
    by blast
next
  assume "actions = None \<or> nat (sint num_players) \<le> length (the_ints st actions)"
    "malformed num_players (take (nat (sint num_players)) (the_ints st actions))
      [actions, payoffs, g, zh, ans]"
  then show "ipa W num_players actions payoffs g zh alpha fuzz ans st = (Ok (- 1), st)"
    by (rule ipa_rejects)
next
  assume "actions = None \<or> nat (sint num_players) \<le> length (the_ints st actions)"
    "answers = None \<or> ptr_slot st answers"
    "malformed num_players (take (nat (sint num_players)) (the_ints st actions))
      [actions, payoffs, g, answers]"
  from gnm_rejects [OF this] show
    "\<exists>st'. gnm W num_players actions payoffs g answers steps fuzz' lnmfreq lnmmax lambdamin
                wobble threshold st = (Ok (- 1), st') \<and>
         (\<forall>x. Some x \<noteq> answers \<longrightarrow> mem st' x = mem st x)"
    by (auto simp: set_slot_def split: option.splits block.splits)
qed

theorem inputs_unchanged_witness:
  "(\<exists>c st'. ipa (sample_world 1 2) 2 (Some 10) (Some 11) (Some 12) (Some 13) 0 0 (Some 14)
               sample_store = (Ok c, st') \<and>
      the_ints st' (Some 10) = [3, 2] \<and>
      the_dbls st' (Some 11) = [3, 2, 0, 3, 5, 6, 3, 2, 3, 2, 6, 1] \<and>
      the_dbls st' (Some 12) = [0, 0, 1, 0, 1]) \<and>
   (\<exists>c st'. gnm (sample_world 1 2) 2 (Some 10) (Some 11) (Some 12) (Some 15) 0 0 0 0 0 0 0
               sample_store = (Ok c, st') \<and>
      the_ints st' (Some 10) = [3, 2] \<and>
      the_dbls st' (Some 11) = [3, 2, 0, 3, 5, 6, 3, 2, 3, 2, 6, 1] \<and>
      the_dbls st' (Some 12) = [0, 0, 1, 0, 1])"
  using inputs_unchanged [where st = sample_store and num_players = 2 and actions = "Some 10"
      and payoffs = "Some 11" and g = "Some 12" and zh = "Some 13" and ans = "Some 14"
      and answers = "Some 15" and sz = sample_sizes and alpha = 0 and fuzz = 0 and fuzz' = 0
      and steps = 0 and lnmfreq = 0 and lnmmax = 0 and lambdamin = 0 and wobble = 0
      and threshold = 0 and W = "sample_world 1 2"]
    sample_ipa_accepts sample_gnm_accepts sample_gnm_solver_ok [of 2] sample_ipa_solver_ok
  by (simp add: sample_args) blast

text \<open>
  C8, as stated, at two calls that differ only in the initial contents of \<open>ans\<close>: with a
  player count of 0 both calls return \<open>-1\<close>, and for the two-player game with a
  \<^verbatim>\<open>std::bad_alloc\<close> from the constructor of \<^verbatim>\<open>ansvec\<close> both return \<open>-2\<close>; each time \<open>ans\<close> holds
  afterwards what it held before, sevens in one call and nines in the other.
\<close>

theorem ans_contents_survive_failure:
  "fst (ipa (sample_world 1 2) 0 (Some 10) (Some 11) (Some 12) (Some 13) 0 0 (Some 14)
      sample_store) = Ok (- 1) \<and>
   fst (ipa (sample_world 1 2) 0 (Some 10) (Some 11) (Some 12) (Some 13) 0 0 (Some 14)
       second_store) = Ok (- 1) \<and>
   the_dbls (snd (ipa (sample_world 1 2) 0 (Some 10) (Some 11) (Some 12) (Some 13) 0 0 (Some 14)
       sample_store)) (Some 14) = [7, 7, 7, 7, 7] \<and>
   the_dbls (snd (ipa (sample_world 1 2) 0 (Some 10) (Some 11) (Some 12) (Some 13) 0 0 (Some 14)
       second_store)) (Some 14) = [9, 9, 9, 9, 9] \<and>
   fst (ipa nomem_world 2 (Some 10) (Some 11) (Some 12) (Some 13) 0 0 (Some 14) sample_store) = Ok
       (- 2) \<and>
   fst (ipa nomem_world 2 (Some 10) (Some 11) (Some 12) (Some 13) 0 0 (Some 14) second_store) = Ok
       (- 2) \<and>
   the_dbls (snd (ipa nomem_world 2 (Some 10) (Some 11) (Some 12) (Some 13) 0 0 (Some 14)
       sample_store)) (Some 14) = [7, 7, 7, 7, 7] \<and>
   the_dbls (snd (ipa nomem_world 2 (Some 10) (Some 11) (Some 12) (Some 13) 0 0 (Some 14)
       second_store)) (Some 14) = [9, 9, 9, 9, 9]"
  by (simp add: no_players_run nomem_run [OF sample_ipa_accepts] nomem_run [OF second_ipa_accepts]
      sample_args second_ans)

text \<open>
  C8, amended. Two well-formed calls of \<^verbatim>\<open>ipa\<close> that differ only in the initial contents
  of \<open>ans\<close>, an array of doubles of its own (not the one of \<open>payoffs\<close>, \<open>g\<close> or \<open>zh\<close>),
  return the same value and leave the same contents in \<open>zh\<close>, when they pass validation
  and when validation turns them down. When the value returned is not negative, the
  first \<open>M\<close> values of \<open>ans\<close> are the same after both calls, \<open>zh\<close> and \<open>ans\<close> hold at least
  \<open>M\<close> values, and their first \<open>M\<close> values are those that \<^verbatim>\<open>IPA\<close> left in its work vector
  and its answer vector.
\<close>

theorem ans_contents_ignored:
  fixes st :: "'d store"
  shows
  "(ipa_accepts st num_players actions payoffs g zh (Some a) sz \<and>
   ipa_solver_ok W st sz actions payoffs g zh alpha fuzz \<and>
   Some a \<noteq> payoffs \<and> Some a \<noteq> g \<and> Some a \<noteq> zh \<and>
   nat (sint (sz_M sz)) \<le> length other \<longrightarrow>
   (\<exists>c s1 s2.
      ipa W num_players actions payoffs g zh alpha fuzz (Some a) st = (Ok c, s1) \<and>
      ipa W num_players actions payoffs g zh alpha fuzz (Some a) (poke a (DblArr other) st) =
        (Ok c, s2) \<and>
      the_dbls s1 zh = the_dbls s2 zh \<and>
      (0 \<le> sint c \<longrightarrow>
         take (nat (sint (sz_M sz))) (the_dbls s1 (Some a)) =
           take (nat (sint (sz_M sz))) (the_dbls s2 (Some a)) \<and>
         nat (sint (sz_M sz)) \<le> length (the_dbls s1 zh) \<and>
         nat (sint (sz_M sz)) \<le> length (the_dbls s1 (Some a)) \<and>
         (\<exists>gv' zv' av'.
            ipa_solver W st sz actions payoffs g zh alpha fuzz = IPA_returns c gv' zv' av' \<and>
            take (nat (sint (sz_M sz))) (the_dbls s1 zh) = take (nat (sint (sz_M sz))) zv' \<and>
            take (nat (sint (sz_M sz))) (the_dbls s1 (Some a)) =
              take (nat (sint (sz_M sz))) av')))) \<and>
   (mem st a = Some (og, DblArr old) \<and> Some a \<noteq> zh \<and>
    (actions = None \<or> nat (sint num_players) \<le> length (the_ints st actions)) \<and>
    malformed num_players (take (nat (sint num_players)) (the_ints st actions))
      [actions, payoffs, g, zh, Some a] \<longrightarrow>
    ipa W num_players actions payoffs g zh alpha fuzz (Some a) st = (Ok (- 1), st) \<and>
    ipa W num_players actions payoffs g zh alpha fuzz (Some a) (poke a (DblArr other) st) =
      (Ok (- 1), poke a (DblArr other) st) \<and>
    the_dbls st zh = the_dbls (poke a (DblArr other) st) zh)"
proof (intro conjI impI; (elim conjE)?)
  assume "ipa_accepts st num_players actions payoffs g zh (Some a) sz"
    "ipa_solver_ok W st sz actions payoffs g zh alpha fuzz"
    "Some a \<noteq> payoffs" "Some a \<noteq> g" "Some a \<noteq> zh" "nat (sint (sz_M sz)) \<le> length other"
  with two_calls_accepted [of st num_players actions payoffs g zh a sz W alpha fuzz other]
  show "\<exists>c s1 s2.
      ipa W num_players actions payoffs g zh alpha fuzz (Some a) st = (Ok c, s1) \<and>
      ipa W num_players actions payoffs g zh alpha fuzz (Some a) (poke a (DblArr other) st) =
        (Ok c, s2) \<and>
      the_dbls s1 zh = the_dbls s2 zh \<and>
      (0 \<le> sint c \<longrightarrow>
         take (nat (sint (sz_M sz))) (the_dbls s1 (Some a)) =
           take (nat (sint (sz_M sz))) (the_dbls s2 (Some a)) \<and>
         nat (sint (sz_M sz)) \<le> length (the_dbls s1 zh) \<and>
         nat (sint (sz_M sz)) \<le> length (the_dbls s1 (Some a)) \<and>
         (\<exists>gv' zv' av'.
            ipa_solver W st sz actions payoffs g zh alpha fuzz = IPA_returns c gv' zv' av' \<and>
            take (nat (sint (sz_M sz))) (the_dbls s1 zh) = take (nat (sint (sz_M sz))) zv' \<and>
            take (nat (sint (sz_M sz))) (the_dbls s1 (Some a)) =
              take (nat (sint (sz_M sz))) av'))"
    by blast
next
  assume r: "mem st a = Some (og, DblArr old)" "Some a \<noteq> zh"
    "actions = None \<or> nat (sint num_players) \<le> length (the_ints st actions)"
    "malformed num_players (take (nat (sint num_players)) (the_ints st actions))
      [actions, payoffs, g, zh, Some a]"
  show "ipa W num_players actions payoffs g zh alpha fuzz (Some a) st = (Ok (- 1), st)"
    by (rule two_calls_rejected(1) [OF r])
  show "ipa W num_players actions payoffs g zh alpha fuzz (Some a) (poke a (DblArr other) st) =
      (Ok (- 1), poke a (DblArr other) st)"
    by (rule two_calls_rejected(2) [OF r])
  show "the_dbls st zh = the_dbls (poke a (DblArr other) st) zh"
    by (rule two_calls_rejected(3) [OF r])
qed

theorem ans_contents_ignored_witness:
  "\<exists>s1 s2. ipa (sample_world 1 2) 2 (Some 10) (Some 11) (Some 12) (Some 13) 0 0 (Some 14)
      sample_store = (Ok 1, s1) \<and>
     ipa (sample_world 1 2) 2 (Some 10) (Some 11) (Some 12) (Some 13) 0 0 (Some 14) second_store =
         (Ok 1, s2) \<and>
     the_dbls s1 (Some 13) = the_dbls s2 (Some 13) \<and>
     take 5 (the_dbls s1 (Some 14)) = take 5 (the_dbls s2 (Some 14))"
  using ans_contents_ignored [where st = sample_store and num_players = 2 and actions = "Some 10"
      and payoffs = "Some 11" and g = "Some 12" and zh = "Some 13" and a = 14
      and sz = sample_sizes and alpha = 0 and fuzz = 0 and W = "sample_world 1 2"
      and other = "[9, 9, 9, 9, 9]", THEN conjunct1]
    sample_ipa_accepts sample_ipa_solver_ok sample_ipa_run [of 1 2 0 0]
  by (fastforce simp: second_store_def sample_sizes_sel)

text \<open>
  C9. \<^verbatim>\<open>gametracer_free\<close> on the null pointer returns without a fault and leaves the store
  as it is. After a call of \<^verbatim>\<open>gnm\<close> that passes validation, \<^verbatim>\<open>gametracer_free\<close> on the
  value left in the result pointer returns without a fault and releases the block, if
  there is one.
\<close>

theorem free_releases_result:
  fixes st :: "'d store" and s :: "'d store"
  shows
  "gametracer_free None s = (Ok (), s) \<and>
   (gnm_accepts st num_players actions payoffs g answers sz \<and> gnm_solver_ok W st sz actions
       payoffs g steps fuzz lnmfreq lnmmax lambdamin wobble threshold \<longrightarrow>
      (\<exists>c st' p. gnm W num_players actions payoffs g answers steps fuzz lnmfreq lnmmax
          lambdamin wobble threshold st = (Ok c, st') \<and> cell_of st' (the answers) = Some p
              \<and>
         gametracer_free p st' =
           (Ok (), st'\<lparr>mem := (case p of None \<Rightarrow> mem st' | Some blk \<Rightarrow>
               (mem st')(blk := None))\<rparr>)))"
proof (intro conjI impI; (elim conjE)?)
  show "gametracer_free None s = (Ok (), s)"
    by (simp add: gametracer_free_def std_free_def)
next
  assume acc: "gnm_accepts st num_players actions payoffs g answers sz" and sol: "gnm_solver_ok W
      st sz actions payoffs g steps fuzz lnmfreq lnmmax lambdamin wobble threshold"
  define sp where "sp = gnm_spec W st sz actions payoffs g answers steps fuzz lnmfreq lnmmax
      lambdamin wobble threshold"
  from gnm_returns_slot [OF acc sol] obtain st' a oa where
    a: "answers = Some a" "a < brk st" and
    run: "gnm W num_players actions payoffs g answers steps fuzz lnmfreq lnmmax lambdamin wobble
        threshold st = (Ok (fst sp), st')" and m: "mem st' = snd sp" and
    cell: "mem st' a = Some (oa, PtrCell (if 0 < sint (fst sp)
              then Some (brk st + 5 + nat (sint (fst sp))) else None))"
    unfolding sp_def by blast
  show "\<exists>c st' p. gnm W num_players actions payoffs g answers steps fuzz lnmfreq lnmmax
      lambdamin wobble threshold st = (Ok c, st') \<and> cell_of st' (the answers) = Some p \<and>
         gametracer_free p st' =
           (Ok (), st'\<lparr>mem := (case p of None \<Rightarrow> mem st' | Some blk \<Rightarrow>
               (mem st')(blk := None))\<rparr>)"
  proof (cases "0 < sint (fst sp)")
    case False
    with cell have "cell_of st' (the answers) = Some None" by (simp add: cell_of_def a(1))
    moreover have "gametracer_free None st' = (Ok (), st'\<lparr>mem := mem st'\<rparr>)"
      by (simp add: gametracer_free_def std_free_def)
    ultimately show ?thesis using run by fastforce
  next
    case True
    define blk where "blk = brk st + 5 + nat (sint (fst sp))"
    from True cell have c: "cell_of st' (the answers) = Some (Some blk)"
      by (simp add: cell_of_def a(1) blk_def)
    from True have "\<exists>xs. snd sp blk = Some (by_malloc, DblArr xs)"
      unfolding sp_def blk_def
      by (auto simp: gnm_spec_def error_code_def
          split: option.splits gnm_outcome.splits exn.splits if_splits)
    then obtain xs where "mem st' blk = Some (by_malloc, DblArr xs)" unfolding m by blast
    then have "gametracer_free (Some blk) st' = (Ok (), st'\<lparr>mem := (mem st')(blk :=
        None)\<rparr>)"
      by (simp add: gametracer_free_def std_free_def release_ok)
    with c run show ?thesis by fastforce
  qed
qed

theorem free_releases_result_witness:
  "gametracer_free None sample_store = (Ok (), sample_store) \<and>
   (\<exists>c st' p. gnm (sample_world 1 2) 2 (Some 10) (Some 11) (Some 12) (Some 15) 0 0 0 0 0 0 0
                 sample_store = (Ok c, st') \<and>
               cell_of st' 15 = Some p \<and> fst (gametracer_free p st') = Ok ())"
  using free_releases_result [where st = sample_store and num_players = 2 and actions = "Some 10"
      and payoffs = "Some 11" and g = "Some 12" and answers = "Some 15" and sz = sample_sizes
      and fuzz = 0 and steps = 0 and lnmfreq = 0 and lnmmax = 0 and lambdamin = 0 and wobble = 0
      and threshold = 0 and W = "sample_world 1 2" and s = sample_store]
    sample_gnm_accepts sample_gnm_solver_ok [of 2]
  by simp (metis fst_conv)

text \<open>
  C10. The sample call of \<^verbatim>\<open>ipa\<close> with an \<^verbatim>\<open>IPA\<close> that returns \<open>-3\<close>: \<^verbatim>\<open>ipa\<close> returns \<open>-3\<close>, and
  the caller's \<open>zh\<close> and \<open>ans\<close>, ones and sevens before the call, hold the solver's work
  vector and answer afterwards.
\<close>

theorem ipa_failure_overwrites:
  "fst (ipa (sample_world (- 3) 2) 2 (Some 10) (Some 11) (Some 12) (Some 13) 0 0 (Some 14)
          sample_store) = Ok (- 3) \<and>
   the_dbls sample_store (Some 13) = [1, 1, 1, 1, 1] \<and>
   the_dbls (snd (ipa (sample_world (- 3) 2) 2 (Some 10) (Some 11) (Some 12) (Some 13) 0 0 (Some 14)
                    sample_store)) (Some 13) = [2, 2, 2, 2, 2] \<and>
   the_dbls sample_store (Some 14) = [7, 7, 7, 7, 7] \<and>
   the_dbls (snd (ipa (sample_world (- 3) 2) 2 (Some 10) (Some 11) (Some 12) (Some 13) 0 0 (Some 14)
                    sample_store)) (Some 14) = [1, 0, 1, 0, 0]"
  using sample_ipa_run [of "- 3" 2 0 0] by (auto simp: sample_args)

end
